theory Spec2Isabelle
  imports Main "HOL-Library.Word" "HOL-Library.AList"
begin

section \<open>Consumer group lag (backend/pkg/owl/consumer\_group\_lag.go)\<close>

subsection \<open>Go values\<close>

text \<open>
  \<open>int32\<close> and \<open>int64\<close> are two's complement machine integers: \<open>-\<close> and \<open>+\<close> wrap
  around, \<open><s\<close> is the signed comparison, \<open>sint\<close> reads the signed value.
  \<open>len\<close> and the counters of type \<open>int\<close> only count entries of a map, so they are
  modelled as \<open>int\<close> without a width.
\<close>

type_synonym int32 = "32 word"
type_synonym int64 = "64 word"

text \<open>
  A Go map is modelled by the list of its entries in the order in which one \<open>range\<close>
  over it visits them. The language leaves that order open, so every statement below
  holds for an arbitrary order. \<open>m[k] = v\<close> is \<open>AList.update k v m\<close>, the two-valued
  read \<open>v, ok := m[k]\<close> is \<open>map_of m k\<close>, \<open>len(m)\<close> is \<open>length m\<close>. A map built by the
  code from the empty map has pairwise distinct keys by construction; for a map handed
  in by a collaborator this is the hypothesis \<open>distinct (map fst m)\<close>, which holds of
  every Go map. Only \<open>offsetsByGroup\<close> is ranged over twice, in step 2 for the slice
  \<open>topics\<close> and in step 4 group by group; the model visits it in the same order both
  times. The order of step 2 decides the order of the \<open>Partitions\<close> calls and nothing
  else, since every failure of such a call gives the same error.
\<close>

type_synonym ('k, 'v) gomap = "('k \<times> 'v) list"

text \<open>
  The one-valued read \<open>m[k]\<close> gives the zero value for a missing key. It is used at a
  map-typed value only (\<open>offsetsByGroup[group]\<close>), where the zero value is the nil map,
  over which \<open>range\<close> runs zero times.
\<close>

definition index_nil :: "('k, ('a, 'b) gomap) gomap \<Rightarrow> 'k \<Rightarrow> ('a, 'b) gomap" where
  "index_nil m k = (case map_of m k of None \<Rightarrow> [] | Some v \<Rightarrow> v)"

text \<open>
  A slice is either nil or holds a sequence of elements; \<open>make([]T, 0)\<close> is the empty
  slice that is not nil, and \<open>append\<close> never returns nil for a single added element.
\<close>

datatype 'a slice = NilSlice | Slice "'a list"

fun elems :: "'a slice \<Rightarrow> 'a list" where
  "elems NilSlice = []"
| "elems (Slice xs) = xs"

fun append_slice :: "'a slice \<Rightarrow> 'a \<Rightarrow> 'a slice" where
  "append_slice s x = Slice (elems s @ [x])"

subsection \<open>The report model\<close>

type_synonym partitionOffsets = "(int32, int64) gomap"

record PartitionLag =
  PartitionID :: int32
  Lag :: int64

record TopicLag =
  Topic :: string
  SummedLag :: int64
  PartitionCount :: int
  PartitionsWithOffset :: int
  PartitionLags :: "PartitionLag slice"

text \<open>
  \<open>TopicLags\<close> holds pointers to \<open>TopicLag\<close> values that are allocated once per loop
  iteration and never written again, so the pointee stands for the pointer.
\<close>

record ConsumerGroupLag =
  GroupID :: string
  TopicLags :: "TopicLag slice"

text \<open>\<open>GetTopicLag\<close>: linear scan, \<open>None\<close> for the nil result.\<close>

fun GetTopicLag_scan :: "TopicLag list \<Rightarrow> string \<Rightarrow> TopicLag option" where
  "GetTopicLag_scan [] topicName = None"
| "GetTopicLag_scan (lag # rest) topicName =
     (if Topic lag = topicName then Some lag else GetTopicLag_scan rest topicName)"

definition GetTopicLag :: "ConsumerGroupLag \<Rightarrow> string \<Rightarrow> TopicLag option" where
  "GetTopicLag c topicName = GetTopicLag_scan (elems (TopicLags c)) topicName"

subsection \<open>The collaborators\<close>

text \<open>
  The Kafka client is not part of this file. Of \<open>sarama.OffsetFetchResponse\<close> the code
  reads \<open>Blocks\<close>, a map from topic to partition to block, and of a block its \<open>Offset\<close>.
  Responses and blocks are reached through pointers. The model takes them as values:
  it describes the runs in which none of these pointers is nil (the code would panic
  on a nil one).
\<close>

record OffsetFetchResponseBlock =
  Offset :: int64

record OffsetFetchResponse =
  Blocks :: "(string, (int32, OffsetFetchResponseBlock) gomap) gomap"

text \<open>
  The three calls the code makes on \<open>s.kafkaSvc\<close> are fields of the service; each
  returns the client's error (\<open>Inl\<close>) or its result. The context argument and the
  logger do not influence the result and are left out.
\<close>

type_synonym kafka_error = string

record Service =
  ListConsumerGroupOffsetsBulk ::
    "string list \<Rightarrow> kafka_error + (string, OffsetFetchResponse) gomap"
  Partitions :: "string \<Rightarrow> kafka_error + int32 list"
  HighWaterMarks ::
    "(string, int32 list) gomap \<Rightarrow> kafka_error + (string, (int32, int64) gomap) gomap"

text \<open>
  The errors \<open>getConsumerGroupLags\<close> returns: three fresh errors with a fixed message
  and the error of \<open>HighWaterMarks\<close>, which is passed on as it is.
  \<^item> \<open>FailedListOffsetsBulk\<close>: failed to list consumer group offsets in bulk
  \<^item> \<open>FailedPartitionList\<close>: failed to fetch partition list for calculating the group lags
  \<^item> \<open>NoPartitionWatermark\<close>: no partition watermark for the group's topic available
\<close>

datatype error =
  FailedListOffsetsBulk
| FailedPartitionList
| HighWaterMarksError kafka_error
| NoPartitionWatermark

subsection \<open>convertOffsets\<close>

text \<open>The inner loop over the blocks of one topic: \<open>pOffsets[pID] = block.Offset\<close>.\<close>

fun convertOffsets_blocks ::
  "(int32, OffsetFetchResponseBlock) gomap \<Rightarrow> partitionOffsets \<Rightarrow> partitionOffsets" where
  "convertOffsets_blocks [] pOffsets = pOffsets"
| "convertOffsets_blocks ((pID, block) # rest) pOffsets =
     convertOffsets_blocks rest (AList.update pID (Offset block) pOffsets)"

text \<open>The outer loop over the topics: \<open>res[topic] = pOffsets\<close>.\<close>

fun convertOffsets_topics ::
  "(string, (int32, OffsetFetchResponseBlock) gomap) gomap \<Rightarrow>
   (string, partitionOffsets) gomap \<Rightarrow> (string, partitionOffsets) gomap" where
  "convertOffsets_topics [] res = res"
| "convertOffsets_topics ((topic, blocks) # rest) res =
     convertOffsets_topics rest (AList.update topic (convertOffsets_blocks blocks []) res)"

definition convertOffsets :: "OffsetFetchResponse \<Rightarrow> (string, partitionOffsets) gomap" where
  "convertOffsets offsets = convertOffsets_topics (Blocks offsets) []"

subsection \<open>getConsumerGroupLags\<close>

text \<open>Step 1, second half: \<open>offsetsByGroup[group] = convertOffsets(offset)\<close>.\<close>

fun offsetsByGroup_loop ::
  "(string, OffsetFetchResponse) gomap \<Rightarrow>
   (string, (string, partitionOffsets) gomap) gomap \<Rightarrow>
   (string, (string, partitionOffsets) gomap) gomap" where
  "offsetsByGroup_loop [] offsetsByGroup = offsetsByGroup"
| "offsetsByGroup_loop ((gid, offset) # rest) offsetsByGroup =
     offsetsByGroup_loop rest (AList.update gid (convertOffsets offset) offsetsByGroup)"

text \<open>
  Step 2: the slice \<open>topics\<close>. Every topic key of every group is appended; nothing is
  looked up or removed.
\<close>

fun topics_inner :: "(string, partitionOffsets) gomap \<Rightarrow> string list \<Rightarrow> string list" where
  "topics_inner [] topics = topics"
| "topics_inner ((topic, pOffsets) # rest) topics = topics_inner rest (topics @ [topic])"

fun topics_loop ::
  "(string, (string, partitionOffsets) gomap) gomap \<Rightarrow> string list \<Rightarrow> string list" where
  "topics_loop [] topics = topics"
| "topics_loop ((gid, topicOffset) # rest) topics =
     topics_loop rest (topics_inner topicOffset topics)"

text \<open>
  The loop that fills \<open>topicPartitions\<close>. It returns at the first topic whose partitions
  cannot be listed. Beside the result, the model records in \<open>calls\<close> the topics for which
  \<open>Partitions\<close> was invoked, in order.
\<close>

fun topicPartitions_loop ::
  "Service \<Rightarrow> string list \<Rightarrow> (string, int32 list) gomap \<Rightarrow> string list \<Rightarrow>
   string list \<times> (error + (string, int32 list) gomap)" where
  "topicPartitions_loop s [] topicPartitions calls = (calls, Inr topicPartitions)"
| "topicPartitions_loop s (topic # rest) topicPartitions calls =
     (case Partitions s topic of
        Inl err \<Rightarrow> (calls @ [topic], Inl FailedPartitionList)
      | Inr partitions \<Rightarrow>
          topicPartitions_loop s rest (AList.update topic partitions topicPartitions)
            (calls @ [topic]))"

text \<open>
  Step 4, innermost loop: one watermark entry after the other, skipping the partitions
  for which the group has no offset entry.
\<close>

fun partitionLags_loop :: "(int32, int64) gomap \<Rightarrow> partitionOffsets \<Rightarrow> TopicLag \<Rightarrow> TopicLag" where
  "partitionLags_loop [] partitionOffsets t = t"
| "partitionLags_loop ((pID, watermark) # rest) partitionOffsets t =
     (case map_of partitionOffsets pID of
        None \<Rightarrow> partitionLags_loop rest partitionOffsets t
      | Some groupOffset \<Rightarrow>
          (let t1 = t\<lparr>PartitionsWithOffset := PartitionsWithOffset t + 1\<rparr>;
               lag = watermark - groupOffset;
               lag' = (if lag <s 0 then 0 else lag);
               t2 = t1\<lparr>SummedLag := SummedLag t1 + lag'\<rparr>;
               t3 = t2\<lparr>PartitionLags :=
                      append_slice (PartitionLags t2) \<lparr>PartitionID = pID, Lag = lag'\<rparr>\<rparr>
           in partitionLags_loop rest partitionOffsets t3))"

text \<open>The loop over the topics of one group; it returns at the first missing watermark.\<close>

fun topicLags_loop ::
  "(string, partitionOffsets) gomap \<Rightarrow> (string, (int32, int64) gomap) gomap \<Rightarrow>
   TopicLag slice \<Rightarrow> error + TopicLag slice" where
  "topicLags_loop [] waterMarks topicLags = Inr topicLags"
| "topicLags_loop ((topic, partitionOffsets) # rest) waterMarks topicLags =
     (case map_of waterMarks topic of
        None \<Rightarrow> Inl NoPartitionWatermark
      | Some partitionWaterMarks \<Rightarrow>
          (let t = \<lparr>Topic = topic, SummedLag = 0,
                    PartitionCount = int (length partitionWaterMarks),
                    PartitionsWithOffset = 0, PartitionLags = Slice []\<rparr>;
               t' = partitionLags_loop partitionWaterMarks partitionOffsets t
           in topicLags_loop rest waterMarks (append_slice topicLags t')))"

text \<open>The loop over the requested groups: \<open>res[group] = &ConsumerGroupLag{...}\<close>.\<close>

fun groups_loop ::
  "string list \<Rightarrow> (string, (string, partitionOffsets) gomap) gomap \<Rightarrow>
   (string, (int32, int64) gomap) gomap \<Rightarrow> (string, ConsumerGroupLag) gomap \<Rightarrow>
   error + (string, ConsumerGroupLag) gomap" where
  "groups_loop [] offsetsByGroup waterMarks res = Inr res"
| "groups_loop (gid # rest) offsetsByGroup waterMarks res =
     (case topicLags_loop (index_nil offsetsByGroup gid) waterMarks (Slice []) of
        Inl e \<Rightarrow> Inl e
      | Inr topicLags \<Rightarrow>
          groups_loop rest offsetsByGroup waterMarks
            (AList.update gid \<lparr>GroupID = gid, TopicLags = topicLags\<rparr> res))"

text \<open>
  Steps 1 and 2 of \<open>getConsumerGroupLags\<close>: the three fetches. On success they give the
  two indices the calculation joins (\<open>offsetsByGroup\<close> and \<open>waterMarks\<close>).
\<close>

definition getConsumerGroupLags_fetch ::
  "Service \<Rightarrow> string list \<Rightarrow>
   error + ((string, (string, partitionOffsets) gomap) gomap \<times>
            (string, (int32, int64) gomap) gomap)" where
  "getConsumerGroupLags_fetch s groups =
     (case ListConsumerGroupOffsetsBulk s groups of
        Inl err \<Rightarrow> Inl FailedListOffsetsBulk
      | Inr offsets \<Rightarrow>
          (let offsetsByGroup = offsetsByGroup_loop offsets [];
               topics = topics_loop offsetsByGroup []
           in case snd (topicPartitions_loop s topics [] []) of
                Inl e \<Rightarrow> Inl e
              | Inr topicPartitions \<Rightarrow>
                  (case HighWaterMarks s topicPartitions of
                     Inl err \<Rightarrow> Inl (HighWaterMarksError err)
                   | Inr waterMarks \<Rightarrow> Inr (offsetsByGroup, waterMarks))))"

text \<open>The whole function: the fetches, then step 4. \<open>Inl\<close> stands for \<open>(nil, err)\<close>.\<close>

definition getConsumerGroupLags ::
  "Service \<Rightarrow> string list \<Rightarrow> error + (string, ConsumerGroupLag) gomap" where
  "getConsumerGroupLags s groups =
     (case getConsumerGroupLags_fetch s groups of
        Inl e \<Rightarrow> Inl e
      | Inr (offsetsByGroup, waterMarks) \<Rightarrow> groups_loop groups offsetsByGroup waterMarks [])"

text \<open>The topics for which step 2 invokes \<open>Partitions\<close>, in the order of the calls.\<close>

definition partitionsCalls :: "Service \<Rightarrow> string list \<Rightarrow> string list" where
  "partitionsCalls s groups =
     (case ListConsumerGroupOffsetsBulk s groups of
        Inl err \<Rightarrow> []
      | Inr offsets \<Rightarrow>
          fst (topicPartitions_loop s (topics_loop (offsetsByGroup_loop offsets []) []) [] []))"

subsection \<open>Closed forms of the loops\<close>

text \<open>
  The following functions are not in the source. They describe what the loops of step 4
  compute, and each loop is proved equal to its closed form below.
  \<open>clampLag\<close> is the lag of one partition: the wrapped difference, replaced by \<open>0\<close>
  when it is negative as a signed number.
\<close>

definition clampLag :: "int64 \<Rightarrow> int64 \<Rightarrow> int64" where
  "clampLag watermark groupOffset =
     (if watermark - groupOffset <s 0 then 0 else watermark - groupOffset)"

text \<open>The entries the innermost loop appends, in the order of the watermark map.\<close>

fun joinLags :: "(int32, int64) gomap \<Rightarrow> partitionOffsets \<Rightarrow> PartitionLag list" where
  "joinLags [] po = []"
| "joinLags ((pID, w) # rest) po =
     (case map_of po pID of
        None \<Rightarrow> joinLags rest po
      | Some off \<Rightarrow> \<lparr>PartitionID = pID, Lag = clampLag w off\<rparr> # joinLags rest po)"

text \<open>The \<open>TopicLag\<close> built for one topic entry of a group.\<close>

definition topicLagOf ::
  "(string, (int32, int64) gomap) gomap \<Rightarrow> string \<Rightarrow> partitionOffsets \<Rightarrow> TopicLag" where
  "topicLagOf waterMarks topic po =
     (let wm = index_nil waterMarks topic
      in \<lparr>Topic = topic, SummedLag = sum_list (map Lag (joinLags wm po)),
          PartitionCount = int (length wm),
          PartitionsWithOffset = int (length (joinLags wm po)),
          PartitionLags = Slice (joinLags wm po)\<rparr>)"

text \<open>The \<open>ConsumerGroupLag\<close> built for one requested group.\<close>

definition groupLagOf ::
  "(string, (string, partitionOffsets) gomap) gomap \<Rightarrow>
   (string, (int32, int64) gomap) gomap \<Rightarrow> string \<Rightarrow> ConsumerGroupLag" where
  "groupLagOf offsetsByGroup waterMarks g =
     \<lparr>GroupID = g,
      TopicLags = Slice (map (\<lambda>(topic, po). topicLagOf waterMarks topic po)
                          (index_nil offsetsByGroup g))\<rparr>"

text \<open>Some topic key of the group's offset map has no entry in the watermark index.\<close>

definition missingWatermark ::
  "(string, (string, partitionOffsets) gomap) gomap \<Rightarrow>
   (string, (int32, int64) gomap) gomap \<Rightarrow> string \<Rightarrow> bool" where
  "missingWatermark offsetsByGroup waterMarks g =
     (\<exists>topic \<in> fst ` set (index_nil offsetsByGroup g). map_of waterMarks topic = None)"

subsection \<open>A service with fixed answers\<close>

text \<open>
  A collaborator for concrete runs: the bulk fetch returns \<open>offsets\<close>, every topic has
  the partitions \<open>partitions\<close>, and the watermark fetch returns \<open>waterMarks\<close>.
\<close>

definition staticService ::
  "(string, OffsetFetchResponse) gomap \<Rightarrow> int32 list \<Rightarrow>
   (string, (int32, int64) gomap) gomap \<Rightarrow> Service" where
  "staticService offsets partitions waterMarks =
     \<lparr>ListConsumerGroupOffsetsBulk = (\<lambda>groups. Inr offsets),
      Partitions = (\<lambda>topic. Inr partitions),
      HighWaterMarks = (\<lambda>topicPartitions. Inr waterMarks)\<rparr>"

text \<open>
  The scenario of the specification: group \<open>g1\<close> has committed offsets 100 and 50 for
  partitions 0 and 1 of \<open>topicA\<close>, the watermarks of partitions 0, 1, 2 are 120, 50, 30,
  and nothing is recorded for any other group.
\<close>

definition scenarioService :: Service where
  "scenarioService =
     staticService
       [(''g1'', \<lparr>Blocks = [(''topicA'', [(0, \<lparr>Offset = 100\<rparr>), (1, \<lparr>Offset = 50\<rparr>)])]\<rparr>)]
       [0, 1, 2]
       [(''topicA'', [(0, 120), (1, 50), (2, 30)])]"

section \<open>Properties of the loops\<close>

subsection \<open>The partition loop\<close>

lemma partitionLags_loop_Topic: "Topic (partitionLags_loop wm po t) = Topic t"
  by (induction wm po t rule: partitionLags_loop.induct) (auto split: option.splits simp: Let_def)

lemma partitionLags_loop_PartitionCount:
  "PartitionCount (partitionLags_loop wm po t) = PartitionCount t"
  by (induction wm po t rule: partitionLags_loop.induct) (auto split: option.splits simp: Let_def)

lemma partitionLags_loop_elems:
  "elems (PartitionLags (partitionLags_loop wm po t)) = elems (PartitionLags t) @ joinLags wm po"
  by (induction wm po t rule: partitionLags_loop.induct)
     (auto split: option.splits simp: Let_def clampLag_def)

lemma partitionLags_loop_not_nil:
  "PartitionLags t \<noteq> NilSlice \<Longrightarrow> PartitionLags (partitionLags_loop wm po t) \<noteq> NilSlice"
  by (induction wm po t rule: partitionLags_loop.induct)
     (auto split: option.splits simp: Let_def)

lemma partitionLags_loop_PartitionsWithOffset:
  "PartitionsWithOffset (partitionLags_loop wm po t) =
     PartitionsWithOffset t + int (length (joinLags wm po))"
  by (induction wm po t rule: partitionLags_loop.induct)
     (auto split: option.splits simp: Let_def)

lemma partitionLags_loop_SummedLag:
  "SummedLag (partitionLags_loop wm po t) = SummedLag t + sum_list (map Lag (joinLags wm po))"
  by (induction wm po t rule: partitionLags_loop.induct)
     (auto split: option.splits simp: Let_def clampLag_def)

lemma length_joinLags: "length (joinLags wm po) \<le> length wm"
  by (induction wm po rule: joinLags.induct) (auto split: option.splits)

lemma clampLag_nonneg: "0 \<le>s clampLag w off"
  by (auto simp: clampLag_def word_sle_eq word_sless_alt)

lemma joinLags_nonneg: "pl \<in> set (joinLags wm po) \<Longrightarrow> 0 \<le>s Lag pl"
  by (induction wm po rule: joinLags.induct) (auto split: option.splits simp: clampLag_nonneg)

lemma set_joinLags:
  "set (joinLags wm po) =
     {\<lparr>PartitionID = pID, Lag = clampLag w off\<rparr> | pID w off. (pID, w) \<in> set wm \<and> map_of po pID = Some off}"
  by (induction wm po rule: joinLags.induct) (auto split: option.splits)

lemma joinLags_filter:
  "joinLags wm po = map (\<lambda>(pID, w). \<lparr>PartitionID = pID, Lag = clampLag w (the (map_of po pID))\<rparr>)
      (filter (\<lambda>(pID, w). map_of po pID \<noteq> None) wm)"
  by (induction wm po rule: joinLags.induct) (auto split: option.splits)

subsection \<open>The topic loop and the group loop\<close>

lemma partitionLags_loop_init:
  "partitionLags_loop wm po
     \<lparr>Topic = topic, SummedLag = 0, PartitionCount = int (length wm),
      PartitionsWithOffset = 0, PartitionLags = Slice []\<rparr> =
   \<lparr>Topic = topic, SummedLag = sum_list (map Lag (joinLags wm po)),
    PartitionCount = int (length wm),
    PartitionsWithOffset = int (length (joinLags wm po)),
    PartitionLags = Slice (joinLags wm po)\<rparr>" (is "?l = ?r")
proof -
  have "PartitionLags ?l \<noteq> NilSlice"
    by (rule partitionLags_loop_not_nil) simp
  then obtain xs where xs: "PartitionLags ?l = Slice xs"
    by (cases "PartitionLags ?l") auto
  have "elems (PartitionLags ?l) = joinLags wm po"
    by (simp add: partitionLags_loop_elems)
  with xs have "PartitionLags ?l = Slice (joinLags wm po)" by simp
  then show ?thesis
    by (intro TopicLag.equality)
       (simp_all add: partitionLags_loop_Topic partitionLags_loop_PartitionCount
          partitionLags_loop_PartitionsWithOffset partitionLags_loop_SummedLag)
qed

lemma topicLags_loop_Inr:
  "\<forall>topic \<in> fst ` set tos. map_of waterMarks topic \<noteq> None \<Longrightarrow>
   topicLags_loop tos waterMarks (Slice xs) =
     Inr (Slice (xs @ map (\<lambda>(topic, po). topicLagOf waterMarks topic po) tos))"
proof (induction tos arbitrary: xs)
  case Nil
  then show ?case by simp
next
  case (Cons a tos)
  obtain topic po where a: "a = (topic, po)" by (cases a)
  with Cons.prems obtain wm where wm: "map_of waterMarks topic = Some wm" by auto
  from Cons.prems have "\<forall>topic \<in> fst ` set tos. map_of waterMarks topic \<noteq> None" by simp
  from Cons.IH [OF this] wm a show ?case
    by (simp add: Let_def partitionLags_loop_init topicLagOf_def index_nil_def)
qed

lemma topicLags_loop_Inl:
  "\<exists>topic \<in> fst ` set tos. map_of waterMarks topic = None \<Longrightarrow>
   topicLags_loop tos waterMarks acc = Inl NoPartitionWatermark"
  by (induction tos waterMarks acc rule: topicLags_loop.induct)
     (auto simp: Let_def split: option.splits)

lemma topicLags_loop_group:
  "topicLags_loop (index_nil offsetsByGroup g) waterMarks (Slice []) =
     (if missingWatermark offsetsByGroup waterMarks g then Inl NoPartitionWatermark
      else Inr (TopicLags (groupLagOf offsetsByGroup waterMarks g)))"
proof (cases "missingWatermark offsetsByGroup waterMarks g")
  case True
  then show ?thesis
    using topicLags_loop_Inl [of "index_nil offsetsByGroup g" waterMarks "Slice []"]
    by (simp add: missingWatermark_def)
next
  case False
  then have "\<forall>topic \<in> fst ` set (index_nil offsetsByGroup g). map_of waterMarks topic \<noteq> None"
    by (simp add: missingWatermark_def)
  from topicLags_loop_Inr [OF this, of "[]"] False show ?thesis
    by (simp add: groupLagOf_def)
qed

lemma groups_loop_Inl:
  "g \<in> set groups \<Longrightarrow> missingWatermark offsetsByGroup waterMarks g \<Longrightarrow>
   groups_loop groups offsetsByGroup waterMarks res = Inl NoPartitionWatermark"
  by (induction groups arbitrary: res) (auto simp: topicLags_loop_group)

lemma groups_loop_Inr:
  "\<forall>g \<in> set groups. \<not> missingWatermark offsetsByGroup waterMarks g \<Longrightarrow>
   \<exists>res'. groups_loop groups offsetsByGroup waterMarks res = Inr res' \<and>
     map_of res' = (\<lambda>g. if g \<in> set groups then Some (groupLagOf offsetsByGroup waterMarks g)
                         else map_of res g) \<and>
     fst ` set res' = set groups \<union> fst ` set res \<and>
     (distinct (map fst res) \<longrightarrow> distinct (map fst res'))"
proof (induction groups offsetsByGroup waterMarks res rule: groups_loop.induct)
  case (1 offsetsByGroup waterMarks res)
  then show ?case by simp
next
  case (2 gid rest offsetsByGroup waterMarks res)
  let ?res1 = "AList.update gid (groupLagOf offsetsByGroup waterMarks gid) res"
  from 2(2) have nm: "\<not> missingWatermark offsetsByGroup waterMarks gid"
    and rest: "\<forall>g \<in> set rest. \<not> missingWatermark offsetsByGroup waterMarks g"
    by simp_all
  have step: "groups_loop (gid # rest) offsetsByGroup waterMarks res =
      groups_loop rest offsetsByGroup waterMarks ?res1"
    using nm by (simp add: topicLags_loop_group groupLagOf_def)
  have tl: "topicLags_loop (index_nil offsetsByGroup gid) waterMarks (Slice []) =
      Inr (TopicLags (groupLagOf offsetsByGroup waterMarks gid))"
    using nm by (simp add: topicLags_loop_group)
  have upd: "AList.update gid \<lparr>GroupID = gid, TopicLags = TopicLags (groupLagOf offsetsByGroup waterMarks gid)\<rparr> res = ?res1"
    by (simp add: groupLagOf_def)
  from "2.IH" [OF tl rest] obtain res' where
    r: "groups_loop rest offsetsByGroup waterMarks ?res1 = Inr res'"
    and m: "map_of res' = (\<lambda>g. if g \<in> set rest then Some (groupLagOf offsetsByGroup waterMarks g)
                         else map_of ?res1 g)"
    and k: "fst ` set res' = set rest \<union> fst ` set ?res1"
    and d: "distinct (map fst ?res1) \<longrightarrow> distinct (map fst res')"
    unfolding upd by blast
  have "map_of res' = (\<lambda>g. if g \<in> set (gid # rest) then Some (groupLagOf offsetsByGroup waterMarks g)
                         else map_of res g)"
    unfolding m by (auto simp: fun_eq_iff update_conv')
  moreover have "fst ` set res' = set (gid # rest) \<union> fst ` set res"
    unfolding k by (auto simp: dom_update)
  moreover have "distinct (map fst res) \<longrightarrow> distinct (map fst res')"
    using d by (simp add: distinct_update)
  ultimately show ?case using step r by simp
qed

lemma groups_loop_eq_Inl:
  "groups_loop groups offsetsByGroup waterMarks res = Inl e \<longleftrightarrow>
     e = NoPartitionWatermark \<and> (\<exists>g \<in> set groups. missingWatermark offsetsByGroup waterMarks g)"
proof (cases "\<exists>g \<in> set groups. missingWatermark offsetsByGroup waterMarks g")
  case True
  then obtain g where "g \<in> set groups" "missingWatermark offsetsByGroup waterMarks g" by blast
  from groups_loop_Inl [OF this] True show ?thesis by auto
next
  case False
  then have "\<forall>g \<in> set groups. \<not> missingWatermark offsetsByGroup waterMarks g" by simp
  from groups_loop_Inr [OF this, of res] False show ?thesis by auto
qed

subsection \<open>Normalisation of the fetched offsets and the partition listing\<close>

lemma update_fresh: "k \<notin> fst ` set al \<Longrightarrow> AList.update k v al = al @ [(k, v)]"
  by (induction al) auto

lemma convertOffsets_blocks_distinct:
  "distinct (map fst pOffsets) \<Longrightarrow> distinct (map fst (convertOffsets_blocks blocks pOffsets))"
  by (induction blocks pOffsets rule: convertOffsets_blocks.induct) (simp_all add: distinct_update)

lemma convertOffsets_blocks_map:
  "distinct (map fst blocks) \<Longrightarrow> fst ` set blocks \<inter> fst ` set pOffsets = {} \<Longrightarrow>
   convertOffsets_blocks blocks pOffsets = pOffsets @ map (\<lambda>(pID, block). (pID, Offset block)) blocks"
proof (induction blocks pOffsets rule: convertOffsets_blocks.induct)
  case (1 pOffsets)
  then show ?case by simp
next
  case (2 pID block rest pOffsets)
  from "2.prems" have fresh: "pID \<notin> fst ` set pOffsets" by auto
  have "fst ` set rest \<inter> fst ` set (AList.update pID (Offset block) pOffsets) = {}"
    using "2.prems" by (auto simp: dom_update)
  with "2.IH" "2.prems" show ?case by (simp add: update_fresh [OF fresh])
qed

lemma convertOffsets_topics_distinct:
  "distinct (map fst res) \<Longrightarrow> distinct (map fst (convertOffsets_topics bs res))"
  by (induction bs res rule: convertOffsets_topics.induct) (simp_all add: distinct_update)

lemma convertOffsets_topics_keys:
  "fst ` set (convertOffsets_topics bs res) = fst ` set res \<union> fst ` set bs"
  by (induction bs res rule: convertOffsets_topics.induct) (auto simp: dom_update)

lemma convertOffsets_topics_map:
  "distinct (map fst bs) \<Longrightarrow> fst ` set bs \<inter> fst ` set res = {} \<Longrightarrow>
   convertOffsets_topics bs res =
     res @ map (\<lambda>(topic, blocks). (topic, convertOffsets_blocks blocks [])) bs"
proof (induction bs res rule: convertOffsets_topics.induct)
  case (1 res)
  then show ?case by simp
next
  case (2 topic blocks rest res)
  from "2.prems" have fresh: "topic \<notin> fst ` set res" by auto
  have "fst ` set rest \<inter> fst ` set (AList.update topic (convertOffsets_blocks blocks []) res) = {}"
    using "2.prems" by (auto simp: dom_update)
  with "2.IH" "2.prems" show ?case by (simp add: update_fresh [OF fresh])
qed

lemma convertOffsets_distinct: "distinct (map fst (convertOffsets offsets))"
  by (simp add: convertOffsets_def convertOffsets_topics_distinct)

lemma convertOffsets_keys: "fst ` set (convertOffsets offsets) = fst ` set (Blocks offsets)"
  by (simp add: convertOffsets_def convertOffsets_topics_keys)

lemma convertOffsets_map:
  "distinct (map fst (Blocks offsets)) \<Longrightarrow>
   convertOffsets offsets =
     map (\<lambda>(topic, blocks). (topic, convertOffsets_blocks blocks [])) (Blocks offsets)"
  by (simp add: convertOffsets_def convertOffsets_topics_map)

lemma offsetsByGroup_loop_distinct:
  "distinct (map fst acc) \<Longrightarrow> distinct (map fst (offsetsByGroup_loop offsets acc))"
  by (induction offsets acc rule: offsetsByGroup_loop.induct) (simp_all add: distinct_update)

lemma set_update_cases: "x \<in> set (AList.update k v al) \<Longrightarrow> x = (k, v) \<or> x \<in> set al"
  by (induction al) (auto split: if_splits)

lemma offsetsByGroup_loop_inner_distinct:
  "(\<And>g topicOffset. (g, topicOffset) \<in> set acc \<Longrightarrow> distinct (map fst topicOffset)) \<Longrightarrow>
   (g, topicOffset) \<in> set (offsetsByGroup_loop offsets acc) \<Longrightarrow> distinct (map fst topicOffset)"
proof (induction offsets acc rule: offsetsByGroup_loop.induct)
  case (1 offsetsByGroup)
  then show ?case by auto
next
  case (2 gid offset rest offsetsByGroup)
  have "distinct (map fst topicOffset')"
    if "(g', topicOffset') \<in> set (AList.update gid (convertOffsets offset) offsetsByGroup)"
    for g' topicOffset'
    using set_update_cases [OF that] "2.prems"(1) by (auto simp: convertOffsets_distinct)
  from "2.IH" [OF this] "2.prems"(2) show ?case by simp
qed

lemma offsetsByGroup_loop_map:
  "distinct (map fst offsets) \<Longrightarrow> fst ` set offsets \<inter> fst ` set acc = {} \<Longrightarrow>
   offsetsByGroup_loop offsets acc = acc @ map (\<lambda>(g, offset). (g, convertOffsets offset)) offsets"
proof (induction offsets acc rule: offsetsByGroup_loop.induct)
  case (1 acc)
  then show ?case by simp
next
  case (2 gid offset rest acc)
  from "2.prems" have fresh: "gid \<notin> fst ` set acc" by auto
  have "fst ` set rest \<inter> fst ` set (AList.update gid (convertOffsets offset) acc) = {}"
    using "2.prems" by (auto simp: dom_update)
  with "2.IH" "2.prems" show ?case by (simp add: update_fresh [OF fresh])
qed

lemma topics_inner_eq: "topics_inner topicOffset topics = topics @ map fst topicOffset"
  by (induction topicOffset topics rule: topics_inner.induct) simp_all

lemma topics_loop_eq:
  "topics_loop offsetsByGroup topics =
     topics @ concat (map (\<lambda>(g, topicOffset). map fst topicOffset) offsetsByGroup)"
  by (induction offsetsByGroup topics rule: topics_loop.induct) (simp_all add: topics_inner_eq)

lemma topicPartitions_loop_fail:
  "topic \<in> set topics \<Longrightarrow> Partitions s topic = Inl err \<Longrightarrow>
   snd (topicPartitions_loop s topics tp calls) = Inl FailedPartitionList"
  by (induction topics arbitrary: tp calls) (auto split: sum.splits)

lemma topicPartitions_loop_ok:
  "\<forall>topic \<in> set topics. \<exists>ps. Partitions s topic = Inr ps \<Longrightarrow>
   \<exists>tp'. topicPartitions_loop s topics tp calls = (calls @ topics, Inr tp') \<and>
     fst ` set tp' = fst ` set tp \<union> set topics \<and>
     (distinct (map fst tp) \<longrightarrow> distinct (map fst tp'))"
proof (induction topics arbitrary: tp calls)
  case Nil
  then show ?case by simp
next
  case (Cons topic topics)
  from Cons.prems obtain ps where ps: "Partitions s topic = Inr ps" by auto
  from Cons.prems have "\<forall>topic \<in> set topics. \<exists>ps. Partitions s topic = Inr ps" by simp
  from Cons.IH [OF this, of "AList.update topic ps tp" "calls @ [topic]"] ps
  show ?case by (auto simp: dom_update distinct_update)
qed

lemma topicPartitions_loop_Inr:
  "snd (topicPartitions_loop s topics tp calls) = Inr tp' \<Longrightarrow>
   \<forall>topic \<in> set topics. \<exists>ps. Partitions s topic = Inr ps"
proof (rule ccontr)
  assume r: "snd (topicPartitions_loop s topics tp calls) = Inr tp'"
  assume "\<not> (\<forall>topic \<in> set topics. \<exists>ps. Partitions s topic = Inr ps)"
  then obtain topic where t: "topic \<in> set topics" and n: "\<forall>ps. Partitions s topic \<noteq> Inr ps" by blast
  then obtain err where "Partitions s topic = Inl err" by (cases "Partitions s topic") auto
  from topicPartitions_loop_fail [OF t this] r show False by simp
qed

lemma topicPartitions_loop_error:
  "snd (topicPartitions_loop s topics tp calls) = Inl e \<Longrightarrow> e = FailedPartitionList"
  by (induction topics arbitrary: tp calls) (auto split: sum.splits)

lemma count_list_concat:
  "count_list (concat xss) a = sum_list (map (\<lambda>xs. count_list xs a) xss)"
  by (induction xss) simp_all

lemma count_list_distinct: "distinct xs \<Longrightarrow> count_list xs a = (if a \<in> set xs then 1 else 0)"
  by (induction xs) auto

subsection \<open>The function as a whole\<close>

lemma index_nil_distinct:
  "(\<And>g v. (g, v) \<in> set m \<Longrightarrow> distinct (map fst v)) \<Longrightarrow> distinct (map fst (index_nil m k))"
  by (auto simp: index_nil_def split: option.splits dest: map_of_SomeD)

lemma getConsumerGroupLags_fetch_Inr:
  assumes "getConsumerGroupLags_fetch s groups = Inr (offsetsByGroup, waterMarks)"
  shows "\<exists>offsets topicPartitions.
           ListConsumerGroupOffsetsBulk s groups = Inr offsets \<and>
           offsetsByGroup = offsetsByGroup_loop offsets [] \<and>
           snd (topicPartitions_loop s (topics_loop offsetsByGroup []) [] []) = Inr topicPartitions \<and>
           HighWaterMarks s topicPartitions = Inr waterMarks"
  using assms
  by (auto simp: getConsumerGroupLags_fetch_def Let_def split: sum.splits)

lemma fetch_topics_distinct:
  assumes "getConsumerGroupLags_fetch s groups = Inr (offsetsByGroup, waterMarks)"
  shows "distinct (map fst (index_nil offsetsByGroup g))"
proof -
  from getConsumerGroupLags_fetch_Inr [OF assms] obtain offsets where
    obg: "offsetsByGroup = offsetsByGroup_loop offsets []" by blast
  have "distinct (map fst v)" if "(g', v) \<in> set offsetsByGroup" for g' v
    using that unfolding obg by (rule offsetsByGroup_loop_inner_distinct [rotated]) simp
  then show ?thesis by (rule index_nil_distinct)
qed

lemma getConsumerGroupLags_calc:
  "getConsumerGroupLags_fetch s groups = Inr (offsetsByGroup, waterMarks) \<Longrightarrow>
   getConsumerGroupLags s groups = groups_loop groups offsetsByGroup waterMarks []"
  by (simp add: getConsumerGroupLags_def)

lemma getConsumerGroupLags_fetch_error:
  "getConsumerGroupLags_fetch s groups = Inl e \<Longrightarrow> getConsumerGroupLags s groups = Inl e"
  by (simp add: getConsumerGroupLags_def)

lemma getConsumerGroupLags_Inr_fetch:
  assumes "getConsumerGroupLags s groups = Inr res"
  shows "\<exists>offsetsByGroup waterMarks.
           getConsumerGroupLags_fetch s groups = Inr (offsetsByGroup, waterMarks)"
  using assms by (cases "getConsumerGroupLags_fetch s groups") (auto simp: getConsumerGroupLags_def)

lemma getConsumerGroupLags_success:
  assumes fetch: "getConsumerGroupLags_fetch s groups = Inr (offsetsByGroup, waterMarks)"
    and res: "getConsumerGroupLags s groups = Inr res"
  shows "\<forall>g \<in> set groups. \<not> missingWatermark offsetsByGroup waterMarks g"
    and "map_of res = (\<lambda>g. if g \<in> set groups then Some (groupLagOf offsetsByGroup waterMarks g)
                            else None)"
    and "fst ` set res = set groups"
    and "distinct (map fst res)"
proof -
  from res have loop: "groups_loop groups offsetsByGroup waterMarks [] = Inr res"
    by (simp add: getConsumerGroupLags_calc [OF fetch])
  show nm: "\<forall>g \<in> set groups. \<not> missingWatermark offsetsByGroup waterMarks g"
  proof (rule ccontr)
    assume "\<not> ?thesis"
    then obtain g where "g \<in> set groups" "missingWatermark offsetsByGroup waterMarks g" by blast
    from groups_loop_Inl [OF this] loop show False by simp
  qed
  from groups_loop_Inr [OF nm, of "[]"] loop
  show "map_of res = (\<lambda>g. if g \<in> set groups then Some (groupLagOf offsetsByGroup waterMarks g)
                            else None)"
    and "fst ` set res = set groups" and "distinct (map fst res)"
    by auto
qed

lemma topicLag_origin:
  assumes fetch: "getConsumerGroupLags_fetch s groups = Inr (offsetsByGroup, waterMarks)"
    and res: "getConsumerGroupLags s groups = Inr res"
    and cgl: "map_of res g = Some cgl"
    and t: "t \<in> set (elems (TopicLags cgl))"
  shows "\<exists>po. (Topic t, po) \<in> set (index_nil offsetsByGroup g) \<and>
              t = topicLagOf waterMarks (Topic t) po"
proof -
  from getConsumerGroupLags_success(2) [OF fetch res] cgl
  have "cgl = groupLagOf offsetsByGroup waterMarks g"
    by (auto split: if_splits)
  with t obtain topic po where
    "(topic, po) \<in> set (index_nil offsetsByGroup g)" "t = topicLagOf waterMarks topic po"
    by (auto simp: groupLagOf_def)
  moreover from this have "Topic t = topic" by (simp add: topicLagOf_def Let_def)
  ultimately show ?thesis by auto
qed

lemma sint_sum_list:
  fixes ws :: "int64 list"
  assumes "\<And>w. w \<in> set ws \<Longrightarrow> 0 \<le> sint w"
    and "sum_list (map sint ws) < 2 ^ 63"
  shows "sint (sum_list ws) = sum_list (map sint ws)"
  using assms
proof (induction ws)
  case Nil
  then show ?case by simp
next
  case (Cons w ws)
  have nonneg: "0 \<le> sum_list (map sint ws)"
    using Cons.prems(1) by (intro sum_list_nonneg) auto
  have w0: "0 \<le> sint w" using Cons.prems(1) by simp
  from Cons.prems(2) w0 have "sum_list (map sint ws) < 2 ^ 63" by simp
  with Cons.IH Cons.prems(1) have ih: "sint (sum_list ws) = sum_list (map sint ws)" by simp
  have "sint (w + sum_list ws) = signed_take_bit 63 (sint w + sint (sum_list ws))"
    by (simp add: sint_word_ariths)
  also have "\<dots> = sint w + sum_list (map sint ws)"
    unfolding ih using w0 nonneg Cons.prems(2)
    by (intro signed_take_bit_int_eq_self) simp_all
  finally show ?case by simp
qed

text \<open>Unfolding rules for running the model on concrete inputs.\<close>

lemmas run_defs = getConsumerGroupLags_def getConsumerGroupLags_fetch_def staticService_def
  convertOffsets_def index_nil_def Let_def word_sless_alt

subsection \<open>Further facts about the report\<close>

lemma groupLag_of_requested:
  assumes fetch: "getConsumerGroupLags_fetch s groups = Inr (offsetsByGroup, waterMarks)"
    and res: "getConsumerGroupLags s groups = Inr res"
    and g: "g \<in> set groups"
  shows "map_of res g = Some (groupLagOf offsetsByGroup waterMarks g)"
  using getConsumerGroupLags_success(2) [OF fetch res] g by simp

lemma filter_key:
  "distinct (map fst xs) \<Longrightarrow> map_of xs k = Some v \<Longrightarrow> filter (\<lambda>x. fst x = k) xs = [(k, v)]"
proof (induction xs)
  case Nil
  then show ?case by simp
next
  case (Cons x xs)
  show ?case
  proof (cases "fst x = k")
    case True
    from Cons.prems(1) have "fst x \<notin> fst ` set xs" by simp
    with True have "\<forall>y \<in> set xs. fst y \<noteq> k" by (auto simp: image_iff)
    then have "filter (\<lambda>x. fst x = k) xs = []" by (simp add: filter_empty_conv)
    with True Cons.prems show ?thesis by (cases x) auto
  next
    case False
    with Cons show ?thesis by (cases x) auto
  qed
qed

lemma Topic_topicLagOf: "Topic (topicLagOf waterMarks topic po) = topic"
  by (simp add: topicLagOf_def Let_def)

lemma filter_topicLags:
  assumes "distinct (map fst tos)" and "map_of tos topic = Some po"
  shows "filter (\<lambda>t. Topic t = topic) (map (\<lambda>(topic, po). topicLagOf waterMarks topic po) tos) =
         [topicLagOf waterMarks topic po]"
proof -
  have "filter (\<lambda>t. Topic t = topic) (map (\<lambda>(topic, po). topicLagOf waterMarks topic po) tos) =
        map (\<lambda>(topic, po). topicLagOf waterMarks topic po) (filter (\<lambda>x. fst x = topic) tos)"
    by (simp add: filter_map comp_def case_prod_unfold Topic_topicLagOf)
  then show ?thesis by (simp add: filter_key [OF assms])
qed

lemma filter_joinLags:
  assumes "distinct (map fst wm)" and "map_of wm pID = Some w" and "map_of po pID = Some off"
  shows "filter (\<lambda>pl. PartitionID pl = pID) (joinLags wm po) =
         [\<lparr>PartitionID = pID, Lag = clampLag w off\<rparr>]"
proof -
  let ?P = "\<lambda>(pID, w). map_of po pID \<noteq> None"
  let ?F = "\<lambda>(pID, w). \<lparr>PartitionID = pID, Lag = clampLag w (the (map_of po pID))\<rparr>"
  have "filter (\<lambda>pl. PartitionID pl = pID) (joinLags wm po) =
        map ?F (filter (\<lambda>x. fst x = pID) (filter ?P wm))"
    by (simp add: joinLags_filter filter_map comp_def case_prod_unfold)
  also have "filter (\<lambda>x. fst x = pID) (filter ?P wm) = filter ?P (filter (\<lambda>x. fst x = pID) wm)"
    by (simp add: conj_commute)
  also have "\<dots> = [(pID, w)]"
    by (simp add: filter_key [OF assms(1,2)] assms(3))
  finally show ?thesis by (simp add: assms(3))
qed

lemma clampLag_exact:
  assumes "- (2 ^ 63) \<le> sint w - sint off" and "sint w - sint off < 2 ^ 63"
  shows "sint (clampLag w off) = (if sint off \<le> sint w then sint w - sint off else 0)"
proof -
  have "sint (w - off) = signed_take_bit 63 (sint w - sint off)"
    by (simp add: sint_word_ariths)
  also have "\<dots> = sint w - sint off"
    using assms by (intro signed_take_bit_int_eq_self) simp_all
  finally show ?thesis by (simp add: clampLag_def word_sless_alt)
qed

lemma set_topics_loop:
  "set (topics_loop offsetsByGroup []) =
     {topic. \<exists>g topicOffset. (g, topicOffset) \<in> set offsetsByGroup \<and> topic \<in> fst ` set topicOffset}"
  by (auto simp: topics_loop_eq)

lemma groups_loop_cases:
  "groups_loop groups offsetsByGroup waterMarks res =
     Inl NoPartitionWatermark \<longleftrightarrow>
   (\<exists>g \<in> set groups. \<exists>topic \<in> fst ` set (index_nil offsetsByGroup g).
      map_of waterMarks topic = None)"
  by (simp add: groups_loop_eq_Inl missingWatermark_def)

lemma joinLags_has_offset:
  "pl \<in> set (joinLags wm po) \<Longrightarrow> \<exists>off. map_of po (PartitionID pl) = Some off"
  by (induction wm po rule: joinLags.induct) (auto split: option.splits)

lemma index_nil_Some: "map_of m k = Some v \<Longrightarrow> index_nil m k = v"
  by (simp add: index_nil_def)

lemma sum_list_indicator:
  "sum_list (map (\<lambda>x. if P x then 1 else 0) xs) = length (filter P xs)"
  by (induction xs) simp_all

lemma count_list_topics:
  assumes "\<And>g topicOffset. (g, topicOffset) \<in> set offsetsByGroup \<Longrightarrow> distinct (map fst topicOffset)"
  shows "count_list (concat (map (\<lambda>(g, topicOffset). map fst topicOffset) offsetsByGroup)) topic =
         length (filter (\<lambda>(g, topicOffset). topic \<in> fst ` set topicOffset) offsetsByGroup)"
proof -
  have "count_list (concat (map (\<lambda>(g, topicOffset). map fst topicOffset) offsetsByGroup)) topic =
        sum_list (map (\<lambda>x. count_list (map fst (snd x)) topic) offsetsByGroup)"
    by (simp add: count_list_concat comp_def case_prod_unfold)
  also have "\<dots> = sum_list (map (\<lambda>x. if topic \<in> fst ` set (snd x) then 1 else 0) offsetsByGroup)"
  proof (rule arg_cong [where f = sum_list], rule map_cong [OF refl])
    fix x assume "x \<in> set offsetsByGroup"
    then have "distinct (map fst (snd x))" using assms [of "fst x" "snd x"] by simp
    then show "count_list (map fst (snd x)) topic = (if topic \<in> fst ` set (snd x) then 1 else 0)"
      by (simp add: count_list_distinct)
  qed
  also have "\<dots> = length (filter (\<lambda>x. topic \<in> fst ` set (snd x)) offsetsByGroup)"
    by (rule sum_list_indicator)
  finally show ?thesis by (simp add: case_prod_unfold)
qed

lemma convertOffsets_blocks_lookup:
  "distinct (map fst blocks) \<Longrightarrow>
   map_of (convertOffsets_blocks blocks []) pID = map_option Offset (map_of blocks pID)"
  by (simp add: convertOffsets_blocks_map map_of_map)

lemma convertOffsets_lookup:
  "distinct (map fst (Blocks offsets)) \<Longrightarrow>
   map_of (convertOffsets offsets) topic =
     map_option (\<lambda>blocks. convertOffsets_blocks blocks []) (map_of (Blocks offsets) topic)"
  by (simp add: convertOffsets_map map_of_map)

lemma offsetsByGroup_loop_lookup:
  "distinct (map fst offsets) \<Longrightarrow>
   map_of (offsetsByGroup_loop offsets []) g = map_option convertOffsets (map_of offsets g)"
  by (simp add: offsetsByGroup_loop_map map_of_map)

lemma joinLags_empty:
  "joinLags wm po = [] \<longleftrightarrow> (\<forall>(p, w) \<in> set wm. map_of po p = None)"
  by (auto simp: joinLags_filter filter_empty_conv)

text \<open>
  What a successful run reports for a requested group: the keys of the result are the
  requested groups, the \<open>topicLags\<close> slice is never nil, and it holds one \<open>TopicLag\<close> for
  each topic key of the group's offset map.
\<close>

lemma requested_group_entry:
  assumes fetch: "getConsumerGroupLags_fetch s groups = Inr (offsetsByGroup, waterMarks)"
    and res: "getConsumerGroupLags s groups = Inr res"
    and g: "g \<in> set groups"
  shows "fst ` set res = set groups \<and>
         (\<exists>topicLags. map_of res g = Some \<lparr>GroupID = g, TopicLags = Slice topicLags\<rparr> \<and>
            (index_nil offsetsByGroup g = [] \<longrightarrow> topicLags = []))"
proof -
  have "map_of res g = Some (groupLagOf offsetsByGroup waterMarks g)"
    by (rule groupLag_of_requested [OF fetch res g])
  moreover have "fst ` set res = set groups"
    by (rule getConsumerGroupLags_success(3) [OF fetch res])
  ultimately show ?thesis by (simp add: groupLagOf_def)
qed

lemma topicLags_are_topic_keys:
  assumes fetch: "getConsumerGroupLags_fetch s groups = Inr (offsetsByGroup, waterMarks)"
    and res: "getConsumerGroupLags s groups = Inr res"
    and g: "g \<in> set groups"
  shows "\<exists>cgl. map_of res g = Some cgl \<and>
           map Topic (elems (TopicLags cgl)) = map fst (index_nil offsetsByGroup g) \<and>
           distinct (map Topic (elems (TopicLags cgl))) \<and>
           (\<forall>t \<in> set (elems (TopicLags cgl)).
              (\<forall>pl \<in> set (elems (PartitionLags t)).
                 \<exists>off. map_of (index_nil (index_nil offsetsByGroup g) (Topic t)) (PartitionID pl) =
                         Some off) \<and>
              (elems (PartitionLags t) = [] \<longleftrightarrow>
                 (\<forall>(p, w) \<in> set (index_nil waterMarks (Topic t)).
                    map_of (index_nil (index_nil offsetsByGroup g) (Topic t)) p = None)))"
proof -
  let ?cgl = "groupLagOf offsetsByGroup waterMarks g"
  let ?tos = "index_nil offsetsByGroup g"
  have r: "map_of res g = Some ?cgl" by (rule groupLag_of_requested [OF fetch res g])
  have d: "distinct (map fst ?tos)" by (rule fetch_topics_distinct [OF fetch])
  have m: "map Topic (elems (TopicLags ?cgl)) = map fst ?tos"
    by (simp add: groupLagOf_def comp_def case_prod_unfold Topic_topicLagOf)
  have "(\<forall>pl \<in> set (elems (PartitionLags t)).
           \<exists>off. map_of (index_nil ?tos (Topic t)) (PartitionID pl) = Some off) \<and>
        (elems (PartitionLags t) = [] \<longleftrightarrow>
           (\<forall>(p, w) \<in> set (index_nil waterMarks (Topic t)).
              map_of (index_nil ?tos (Topic t)) p = None))"
    if t: "t \<in> set (elems (TopicLags ?cgl))" for t
  proof -
    from t obtain topic po where tp: "(topic, po) \<in> set ?tos"
      and teq: "t = topicLagOf waterMarks topic po"
      by (auto simp: groupLagOf_def)
    from d tp have "map_of ?tos topic = Some po" by simp
    then have po: "index_nil ?tos (Topic t) = po"
      by (simp add: teq Topic_topicLagOf index_nil_Some)
    have top: "Topic t = topic" by (simp add: teq Topic_topicLagOf)
    have pls: "elems (PartitionLags t) = joinLags (index_nil waterMarks topic) po"
      by (simp add: teq topicLagOf_def Let_def)
    show ?thesis
      unfolding po pls unfolding top
      by (simp add: joinLags_has_offset joinLags_empty)
  qed
  with r m d show ?thesis by (intro exI [of _ ?cgl]) simp
qed

section \<open>The claims\<close>

subsection \<open>C1: the scenario of the specification\<close>

text \<open>
  C1. A requested group whose offset map is \<open>{topicA: {0: 100, 1: 50}}\<close>, with the
  watermarks \<open>{0: 120, 1: 50, 2: 30}\<close> for \<open>topicA\<close>, gets exactly one \<open>TopicLag\<close>:
  topic \<open>topicA\<close>, partition count 3, two partitions with an offset, summed lag 20 and
  the two partition lags \<open>(0, 20)\<close> and \<open>(1, 0)\<close>, in whatever order the two maps are
  iterated. Partition 2 has no entry.
\<close>

theorem scenario_topicA:
  assumes fetch: "getConsumerGroupLags_fetch s groups = Inr (offsetsByGroup, waterMarks)"
    and res: "getConsumerGroupLags s groups = Inr res"
    and g: "g \<in> set groups"
    and offs: "map_of offsetsByGroup g = Some [(''topicA'', po)]"
    and po: "map_of po = [0 \<mapsto> 100, 1 \<mapsto> 50]"
    and wms: "map_of waterMarks ''topicA'' = Some wm"
    and dist: "distinct (map fst wm)"
    and wm: "map_of wm = [0 \<mapsto> 120, 1 \<mapsto> 50, 2 \<mapsto> 30]"
  shows "\<exists>t. map_of res g = Some \<lparr>GroupID = g, TopicLags = Slice [t]\<rparr> \<and>
             Topic t = ''topicA'' \<and> PartitionCount t = 3 \<and> PartitionsWithOffset t = 2 \<and>
             SummedLag t = 20 \<and>
             set (elems (PartitionLags t)) =
               {\<lparr>PartitionID = 0, Lag = 20\<rparr>, \<lparr>PartitionID = 1, Lag = 0\<rparr>} \<and>
             length (elems (PartitionLags t)) = 2"
proof -
  let ?t = "topicLagOf waterMarks ''topicA'' po"
  let ?P = "\<lambda>(pID, w). map_of po pID \<noteq> None"
  let ?F = "\<lambda>(pID, w). \<lparr>PartitionID = pID, Lag = clampLag w (the (map_of po pID))\<rparr>"
  have "map_of res g = Some (groupLagOf offsetsByGroup waterMarks g)"
    by (rule groupLag_of_requested [OF fetch res g])
  then have r: "map_of res g = Some \<lparr>GroupID = g, TopicLags = Slice [?t]\<rparr>"
    using offs by (simp add: groupLagOf_def index_nil_def)
  have iw: "index_nil waterMarks ''topicA'' = wm" using wms by (simp add: index_nil_def)
  have setwm: "set wm = {(0, 120), (1, 50), (2, 30)}"
  proof -
    have "(p, w) \<in> set wm \<longleftrightarrow> (p, w) \<in> {(0, 120), (1, 50), (2, 30)}" for p w
      using map_of_eq_Some_iff [OF dist, of p w] by (auto simp: wm split: if_splits)
    then show ?thesis by auto
  qed
  have dwm: "distinct wm" using dist by (simp add: distinct_map)
  have "card (set wm) = 3" unfolding setwm by simp
  with distinct_card [OF dwm] have lenwm: "length wm = 3" by simp
  have setf: "set (filter ?P wm) = {(0, 120), (1, 50)}"
    by (auto simp: setwm po)
  have df: "distinct (filter ?P wm)" using dwm by simp
  have "card (set (filter ?P wm)) = 2" unfolding setf by simp
  with distinct_card [OF df] have lenf: "length (filter ?P wm) = 2" by simp
  have jl: "joinLags wm po = map ?F (filter ?P wm)" by (rule joinLags_filter)
  have lenj: "length (joinLags wm po) = 2" by (simp only: jl length_map lenf)
  have setj: "set (joinLags wm po) = {\<lparr>PartitionID = 0, Lag = 20\<rparr>, \<lparr>PartitionID = 1, Lag = 0\<rparr>}"
    unfolding jl set_map setf by (simp add: po clampLag_def word_sless_alt)
  have "sum_list (map Lag (joinLags wm po)) = sum_list (map (\<lambda>x. Lag (?F x)) (filter ?P wm))"
    by (simp add: jl comp_def)
  also have "\<dots> = sum (\<lambda>x. Lag (?F x)) (set (filter ?P wm))"
    by (rule sum_list_distinct_conv_sum_set [OF df])
  also have "\<dots> = 20"
    unfolding setf by (simp add: po clampLag_def word_sless_alt)
  finally have sumj: "sum_list (map Lag (joinLags wm po)) = 20" .
  have "Topic ?t = ''topicA''" "PartitionCount ?t = 3" "PartitionsWithOffset ?t = 2"
    "SummedLag ?t = 20"
    "set (elems (PartitionLags ?t)) = {\<lparr>PartitionID = 0, Lag = 20\<rparr>, \<lparr>PartitionID = 1, Lag = 0\<rparr>}"
    "length (elems (PartitionLags ?t)) = 2"
    by (simp_all add: topicLagOf_def Let_def iw lenwm sumj setj lenj)
  with r show ?thesis by blast
qed

theorem scenario_topicA_witness:
  "getConsumerGroupLags_fetch scenarioService [''g1'', ''g2''] =
     Inr ([(''g1'', [(''topicA'', [(0, 100), (1, 50)])])],
          [(''topicA'', [(0, 120), (1, 50), (2, 30)])]) \<and>
   getConsumerGroupLags scenarioService [''g1'', ''g2''] =
     Inr [(''g1'', \<lparr>GroupID = ''g1'', TopicLags = Slice [\<lparr>Topic = ''topicA'', SummedLag = 20,
             PartitionCount = 3, PartitionsWithOffset = 2,
             PartitionLags = Slice [\<lparr>PartitionID = 0, Lag = 20\<rparr>, \<lparr>PartitionID = 1, Lag = 0\<rparr>]\<rparr>]\<rparr>),
          (''g2'', \<lparr>GroupID = ''g2'', TopicLags = Slice []\<rparr>)] \<and>
   (\<exists>t. map_of
           [(''g1'', \<lparr>GroupID = ''g1'', TopicLags = Slice [\<lparr>Topic = ''topicA'', SummedLag = 20,
               PartitionCount = 3, PartitionsWithOffset = 2,
               PartitionLags = Slice [\<lparr>PartitionID = 0, Lag = 20\<rparr>, \<lparr>PartitionID = 1, Lag = 0\<rparr>]\<rparr>]\<rparr>),
            (''g2'', \<lparr>GroupID = ''g2'', TopicLags = Slice []\<rparr>)] ''g1'' =
         Some \<lparr>GroupID = ''g1'', TopicLags = Slice [t]\<rparr> \<and>
         Topic t = ''topicA'' \<and> PartitionCount t = 3 \<and> PartitionsWithOffset t = 2 \<and>
         SummedLag t = 20 \<and>
         set (elems (PartitionLags t)) =
           {\<lparr>PartitionID = 0, Lag = 20\<rparr>, \<lparr>PartitionID = 1, Lag = 0\<rparr>} \<and>
         length (elems (PartitionLags t)) = 2)"
proof -
  let ?po = "[(0 :: int32, 100 :: int64), (1, 50)]"
  let ?wm = "[(0 :: int32, 120 :: int64), (1, 50), (2, 30)]"
  let ?obg = "[(''g1'', [(''topicA'', ?po)])]"
  let ?wms = "[(''topicA'', ?wm)]"
  let ?res = "[(''g1'', \<lparr>GroupID = ''g1'', TopicLags = Slice [\<lparr>Topic = ''topicA'', SummedLag = 20,
               PartitionCount = 3, PartitionsWithOffset = 2,
               PartitionLags = Slice [\<lparr>PartitionID = 0, Lag = 20\<rparr>, \<lparr>PartitionID = 1, Lag = 0\<rparr>]\<rparr>]\<rparr>),
            (''g2'', \<lparr>GroupID = ''g2'', TopicLags = Slice []\<rparr>)]"
  have fetch: "getConsumerGroupLags_fetch scenarioService [''g1'', ''g2''] = Inr (?obg, ?wms)"
    by (simp add: scenarioService_def run_defs)
  have run: "getConsumerGroupLags scenarioService [''g1'', ''g2''] = Inr ?res"
    by (simp add: scenarioService_def run_defs)
  have g: "''g1'' \<in> set [''g1'', ''g2'']" by simp
  have offs: "map_of ?obg ''g1'' = Some [(''topicA'', ?po)]" by simp
  have po: "map_of ?po = [0 \<mapsto> 100, 1 \<mapsto> 50]" by (auto simp: fun_eq_iff)
  have wms: "map_of ?wms ''topicA'' = Some ?wm" by simp
  have dist: "distinct (map fst ?wm)" by simp
  have wm: "map_of ?wm = [0 \<mapsto> 120, 1 \<mapsto> 50, 2 \<mapsto> 30]" by (auto simp: fun_eq_iff)
  from scenario_topicA [OF fetch run g offs po wms dist wm] fetch run
  show ?thesis by simp
qed

subsection \<open>C2: the lag of one partition\<close>

text \<open>
  C2 as stated (lag \<open>w - o\<close> when \<open>w \<ge> o\<close>, lag \<open>0\<close> when \<open>w < o\<close>, for every
  watermark \<open>w\<close> and offset \<open>o\<close>) fails at the ends of the \<open>int64\<close> range, where the
  subtraction wraps around. With watermark \<open>2^63 - 1\<close> and offset \<open>-1\<close> the watermark is
  the larger one, the difference is not \<open>0\<close>, and the reported lag is \<open>0\<close>. With
  watermark \<open>-2^63\<close> and offset \<open>1\<close> the watermark is the smaller one and the reported
  lag is \<open>2^63 - 1\<close>.
\<close>

theorem lag_of_partition_counterexample:
  "getConsumerGroupLags
     (staticService [(''g'', \<lparr>Blocks = [(''t'', [(0, \<lparr>Offset = - 1\<rparr>)])]\<rparr>)] [0]
        [(''t'', [(0, 0x7FFFFFFFFFFFFFFF)])]) [''g''] =
     Inr [(''g'', \<lparr>GroupID = ''g'', TopicLags = Slice [\<lparr>Topic = ''t'', SummedLag = 0,
             PartitionCount = 1, PartitionsWithOffset = 1,
             PartitionLags = Slice [\<lparr>PartitionID = 0, Lag = 0\<rparr>]\<rparr>]\<rparr>)] \<and>
   (- 1 :: int64) \<le>s 0x7FFFFFFFFFFFFFFF \<and>
   (0x7FFFFFFFFFFFFFFF - (- 1) :: int64) \<noteq> 0 \<and>
   sint (0x7FFFFFFFFFFFFFFF :: int64) - sint (- 1 :: int64) \<noteq> 0 \<and>
   getConsumerGroupLags
     (staticService [(''g'', \<lparr>Blocks = [(''t'', [(0, \<lparr>Offset = 1\<rparr>)])]\<rparr>)] [0]
        [(''t'', [(0, 0x8000000000000000)])]) [''g''] =
     Inr [(''g'', \<lparr>GroupID = ''g'', TopicLags = Slice [\<lparr>Topic = ''t'', SummedLag = 0x7FFFFFFFFFFFFFFF,
             PartitionCount = 1, PartitionsWithOffset = 1,
             PartitionLags = Slice [\<lparr>PartitionID = 0, Lag = 0x7FFFFFFFFFFFFFFF\<rparr>]\<rparr>]\<rparr>)] \<and>
   (0x8000000000000000 :: int64) <s 1 \<and>
   (0x7FFFFFFFFFFFFFFF :: int64) \<noteq> 0"
  by (simp add: run_defs word_sle_eq)

text \<open>
  C2, amended. For a requested group \<open>g\<close> with \<open>offsetsByGroup[g][topic][pID] = off\<close> and
  \<open>waterMarks[topic][pID] = w\<close>, a successful run reports exactly one \<open>TopicLag\<close> for
  \<open>topic\<close> and in it exactly one \<open>PartitionLag\<close> for \<open>pID\<close>. Its lag is the wrapped
  difference \<open>w - off\<close>, or \<open>0\<close> when that is negative as a signed number. Whenever
  the exact difference fits into \<open>int64\<close> (as it does for non-negative offsets and
  watermarks), the lag is \<open>w - off\<close> when \<open>w \<ge> off\<close> and \<open>0\<close> when \<open>w < off\<close>.
\<close>

theorem lag_of_partition:
  assumes fetch: "getConsumerGroupLags_fetch s groups = Inr (offsetsByGroup, waterMarks)"
    and res: "getConsumerGroupLags s groups = Inr res"
    and g: "g \<in> set groups"
    and offs: "map_of offsetsByGroup g = Some topicOffset"
    and po: "map_of topicOffset topic = Some po"
    and off: "map_of po pID = Some off"
    and wms: "map_of waterMarks topic = Some wm"
    and dist: "distinct (map fst wm)"
    and w: "map_of wm pID = Some w"
  shows "\<exists>cgl t lag.
           map_of res g = Some cgl \<and>
           filter (\<lambda>t. Topic t = topic) (elems (TopicLags cgl)) = [t] \<and>
           filter (\<lambda>pl. PartitionID pl = pID) (elems (PartitionLags t)) =
             [\<lparr>PartitionID = pID, Lag = lag\<rparr>] \<and>
           lag = (if w - off <s 0 then 0 else w - off) \<and>
           (- (2 ^ 63) \<le> sint w - sint off \<and> sint w - sint off < 2 ^ 63 \<longrightarrow>
              sint lag = (if sint off \<le> sint w then sint w - sint off else 0))"
proof -
  let ?cgl = "groupLagOf offsetsByGroup waterMarks g"
  let ?t = "topicLagOf waterMarks topic po"
  have r: "map_of res g = Some ?cgl" by (rule groupLag_of_requested [OF fetch res g])
  have io: "index_nil offsetsByGroup g = topicOffset" using offs by (simp add: index_nil_def)
  have iw: "index_nil waterMarks topic = wm" using wms by (simp add: index_nil_def)
  have "distinct (map fst topicOffset)"
    using fetch_topics_distinct [OF fetch, of g] by (simp add: io)
  from filter_topicLags [OF this po]
  have ft: "filter (\<lambda>t. Topic t = topic) (elems (TopicLags ?cgl)) = [?t]"
    by (simp add: groupLagOf_def io)
  have fp: "filter (\<lambda>pl. PartitionID pl = pID) (elems (PartitionLags ?t)) =
      [\<lparr>PartitionID = pID, Lag = clampLag w off\<rparr>]"
    using filter_joinLags [OF dist w off] by (simp add: topicLagOf_def Let_def iw)
  have "clampLag w off = (if w - off <s 0 then 0 else w - off)" by (simp add: clampLag_def)
  moreover have "sint (clampLag w off) = (if sint off \<le> sint w then sint w - sint off else 0)"
    if "- (2 ^ 63) \<le> sint w - sint off \<and> sint w - sint off < 2 ^ 63"
    using that clampLag_exact by blast
  ultimately show ?thesis using r ft fp by blast
qed

theorem lag_of_partition_witness:
  "getConsumerGroupLags_fetch
     (staticService [(''g'', \<lparr>Blocks = [(''t'', [(0, \<lparr>Offset = 105\<rparr>), (1, \<lparr>Offset = 7\<rparr>)])]\<rparr>)]
        [0, 1] [(''t'', [(0, 100), (1, 9)])]) [''g''] =
     Inr ([(''g'', [(''t'', [(0, 105), (1, 7)])])], [(''t'', [(0, 100), (1, 9)])]) \<and>
   getConsumerGroupLags
     (staticService [(''g'', \<lparr>Blocks = [(''t'', [(0, \<lparr>Offset = 105\<rparr>), (1, \<lparr>Offset = 7\<rparr>)])]\<rparr>)]
        [0, 1] [(''t'', [(0, 100), (1, 9)])]) [''g''] =
     Inr [(''g'', \<lparr>GroupID = ''g'', TopicLags = Slice [\<lparr>Topic = ''t'', SummedLag = 2,
             PartitionCount = 2, PartitionsWithOffset = 2,
             PartitionLags = Slice [\<lparr>PartitionID = 0, Lag = 0\<rparr>, \<lparr>PartitionID = 1, Lag = 2\<rparr>]\<rparr>]\<rparr>)] \<and>
   (\<exists>lag. filter (\<lambda>pl. PartitionID pl = 0)
            [\<lparr>PartitionID = 0, Lag = 0\<rparr>, \<lparr>PartitionID = 1, Lag = 2\<rparr>] =
            [\<lparr>PartitionID = 0, Lag = lag\<rparr>] \<and>
          lag = (if (100 :: int64) - 105 <s 0 then 0 else 100 - 105) \<and>
          sint lag = (if sint (105 :: int64) \<le> sint (100 :: int64)
                      then sint (100 :: int64) - sint (105 :: int64) else 0))"
proof -
  let ?s = "staticService [(''g'', \<lparr>Blocks = [(''t'', [(0, \<lparr>Offset = 105\<rparr>), (1, \<lparr>Offset = 7\<rparr>)])]\<rparr>)]
        [0, 1] [(''t'', [(0, 100), (1, 9)])]"
  let ?po = "[(0 :: int32, 105 :: int64), (1, 7)]"
  let ?wm = "[(0 :: int32, 100 :: int64), (1, 9)]"
  let ?t = "\<lparr>Topic = ''t'', SummedLag = 2, PartitionCount = 2, PartitionsWithOffset = 2,
             PartitionLags = Slice [\<lparr>PartitionID = 0, Lag = 0\<rparr>, \<lparr>PartitionID = 1, Lag = 2\<rparr>]\<rparr>"
  let ?res = "[(''g'', \<lparr>GroupID = ''g'', TopicLags = Slice [?t]\<rparr>)]"
  have fetch: "getConsumerGroupLags_fetch ?s [''g''] = Inr ([(''g'', [(''t'', ?po)])], [(''t'', ?wm)])"
    by (simp add: run_defs)
  have run: "getConsumerGroupLags ?s [''g''] = Inr ?res"
    by (simp add: run_defs)
  have g: "''g'' \<in> set [''g'']" by simp
  have offs: "map_of [(''g'', [(''t'', ?po)])] ''g'' = Some [(''t'', ?po)]" by simp
  have po: "map_of [(''t'', ?po)] ''t'' = Some ?po" by simp
  have off: "map_of ?po 0 = Some 105" by simp
  have wms: "map_of [(''t'', ?wm)] ''t'' = Some ?wm" by simp
  have dist: "distinct (map fst ?wm)" by simp
  have w: "map_of ?wm 0 = Some 100" by simp
  have range: "- (2 ^ 63) \<le> sint (100 :: int64) - sint (105 :: int64) \<and>
               sint (100 :: int64) - sint (105 :: int64) < 2 ^ 63" by simp
  from lag_of_partition [OF fetch run g offs po off wms dist w] range fetch run
  show ?thesis by auto
qed

subsection \<open>C3: the failures\<close>

text \<open>
  C3 as stated ties the missing-watermark error to a topic for which a requested group
  has committed offsets. The code fails for every topic key of the group's offset map,
  also for one whose partition map is empty: below, group \<open>g\<close> has the topic \<open>t\<close> without
  a single committed offset, the watermark index has no entry for \<open>t\<close>, and the run
  fails with the missing-watermark error.
\<close>

theorem failure_modes_counterexample:
  "getConsumerGroupLags_fetch
     (staticService [(''g'', \<lparr>Blocks = [(''t'', [])]\<rparr>)] [0] []) [''g''] =
     Inr ([(''g'', [(''t'', [])])], []) \<and>
   getConsumerGroupLags
     (staticService [(''g'', \<lparr>Blocks = [(''t'', [])]\<rparr>)] [0] []) [''g''] =
     Inl NoPartitionWatermark"
  by (simp add: run_defs)

text \<open>
  C3, amended. The run returns one error and no report when the bulk fetch fails, when
  \<open>Partitions\<close> fails for a topic key of some group's offset map, or when
  \<open>HighWaterMarks\<close> fails. When the three fetches succeed, the run fails with the
  missing-watermark error if and only if the offset map of some requested group has a
  topic key (with or without partition offsets) that has no entry in the watermark
  index, and it returns a report if and only if there is no such key.
\<close>

theorem failure_modes:
  "(ListConsumerGroupOffsetsBulk s groups = Inl err \<longrightarrow>
      getConsumerGroupLags s groups = Inl FailedListOffsetsBulk) \<and>
   (ListConsumerGroupOffsetsBulk s groups = Inr offsets \<and>
    (g, topicOffset) \<in> set (offsetsByGroup_loop offsets []) \<and>
    topic \<in> fst ` set topicOffset \<and> Partitions s topic = Inl err \<longrightarrow>
      getConsumerGroupLags s groups = Inl FailedPartitionList) \<and>
   (ListConsumerGroupOffsetsBulk s groups = Inr offsets \<and>
    snd (topicPartitions_loop s (topics_loop (offsetsByGroup_loop offsets []) []) [] []) =
      Inr topicPartitions \<and>
    HighWaterMarks s topicPartitions = Inl err \<longrightarrow>
      getConsumerGroupLags s groups = Inl (HighWaterMarksError err)) \<and>
   (getConsumerGroupLags_fetch s groups = Inr (offsetsByGroup, waterMarks) \<longrightarrow>
      (getConsumerGroupLags s groups = Inl NoPartitionWatermark \<longleftrightarrow>
         (\<exists>g \<in> set groups. \<exists>topic \<in> fst ` set (index_nil offsetsByGroup g).
            map_of waterMarks topic = None)) \<and>
      ((\<exists>res. getConsumerGroupLags s groups = Inr res) \<longleftrightarrow>
         (\<forall>g \<in> set groups. \<forall>topic \<in> fst ` set (index_nil offsetsByGroup g).
            map_of waterMarks topic \<noteq> None)))"
proof (intro conjI impI)
  assume "ListConsumerGroupOffsetsBulk s groups = Inl err"
  then show "getConsumerGroupLags s groups = Inl FailedListOffsetsBulk"
    by (simp add: getConsumerGroupLags_def getConsumerGroupLags_fetch_def)
next
  assume a: "ListConsumerGroupOffsetsBulk s groups = Inr offsets \<and>
    (g, topicOffset) \<in> set (offsetsByGroup_loop offsets []) \<and>
    topic \<in> fst ` set topicOffset \<and> Partitions s topic = Inl err"
  then have "topic \<in> set (topics_loop (offsetsByGroup_loop offsets []) [])"
    unfolding set_topics_loop by blast
  from topicPartitions_loop_fail [OF this, of s err "[]" "[]"] a
  show "getConsumerGroupLags s groups = Inl FailedPartitionList"
    by (simp add: getConsumerGroupLags_def getConsumerGroupLags_fetch_def)
next
  assume "ListConsumerGroupOffsetsBulk s groups = Inr offsets \<and>
    snd (topicPartitions_loop s (topics_loop (offsetsByGroup_loop offsets []) []) [] []) =
      Inr topicPartitions \<and>
    HighWaterMarks s topicPartitions = Inl err"
  then show "getConsumerGroupLags s groups = Inl (HighWaterMarksError err)"
    by (simp add: getConsumerGroupLags_def getConsumerGroupLags_fetch_def)
next
  assume fetch: "getConsumerGroupLags_fetch s groups = Inr (offsetsByGroup, waterMarks)"
  show "getConsumerGroupLags s groups = Inl NoPartitionWatermark \<longleftrightarrow>
         (\<exists>g \<in> set groups. \<exists>topic \<in> fst ` set (index_nil offsetsByGroup g).
            map_of waterMarks topic = None)"
    by (simp only: getConsumerGroupLags_calc [OF fetch] groups_loop_cases)
  have "(\<exists>res. getConsumerGroupLags s groups = Inr res) \<longleftrightarrow>
        getConsumerGroupLags s groups \<noteq> Inl NoPartitionWatermark"
  proof (cases "getConsumerGroupLags s groups")
    case (Inl e)
    then show ?thesis
      using groups_loop_eq_Inl [of groups offsetsByGroup waterMarks "[]" e]
      by (simp add: getConsumerGroupLags_calc [OF fetch])
  next
    case (Inr res)
    then show ?thesis by simp
  qed
  also have "\<dots> \<longleftrightarrow> (\<forall>g \<in> set groups. \<forall>topic \<in> fst ` set (index_nil offsetsByGroup g).
            map_of waterMarks topic \<noteq> None)"
    by (simp only: getConsumerGroupLags_calc [OF fetch] groups_loop_cases) simp
  finally show "(\<exists>res. getConsumerGroupLags s groups = Inr res) \<longleftrightarrow>
         (\<forall>g \<in> set groups. \<forall>topic \<in> fst ` set (index_nil offsetsByGroup g).
            map_of waterMarks topic \<noteq> None)" .
qed

theorem failure_modes_witness:
  "getConsumerGroupLags
     (scenarioService\<lparr>ListConsumerGroupOffsetsBulk := (\<lambda>groups. Inl ''timeout'')\<rparr>)
     [''g1'', ''g2''] = Inl FailedListOffsetsBulk \<and>
   getConsumerGroupLags
     (scenarioService\<lparr>Partitions := (\<lambda>topic. Inl ''unknown topic'')\<rparr>)
     [''g1'', ''g2''] = Inl FailedPartitionList \<and>
   getConsumerGroupLags
     (scenarioService\<lparr>HighWaterMarks := (\<lambda>topicPartitions. Inl ''broker down'')\<rparr>)
     [''g1'', ''g2''] = Inl (HighWaterMarksError ''broker down'') \<and>
   getConsumerGroupLags
     (scenarioService\<lparr>HighWaterMarks := (\<lambda>topicPartitions. Inr [])\<rparr>)
     [''g1'', ''g2''] = Inl NoPartitionWatermark \<and>
   (\<exists>res. getConsumerGroupLags scenarioService [''g1'', ''g2''] = Inr res)"
proof -
  let ?groups = "[''g1'', ''g2'']"
  let ?offsets = "[(''g1'', \<lparr>Blocks = [(''topicA'', [(0, \<lparr>Offset = 100\<rparr>), (1, \<lparr>Offset = 50\<rparr>)])]\<rparr>)]"
  let ?topicOffset = "[(''topicA'', [(0 :: int32, 100 :: int64), (1, 50)])]"
  let ?obg = "[(''g1'', ?topicOffset)]"
  let ?tp = "[(''topicA'', [0 :: int32, 1, 2])]"
  let ?wms = "[(''topicA'', [(0 :: int32, 120 :: int64), (1, 50), (2, 30)])]"
  let ?s1 = "scenarioService\<lparr>ListConsumerGroupOffsetsBulk := (\<lambda>groups. Inl ''timeout'')\<rparr>"
  let ?s2 = "scenarioService\<lparr>Partitions := (\<lambda>topic. Inl ''unknown topic'')\<rparr>"
  let ?s3 = "scenarioService\<lparr>HighWaterMarks := (\<lambda>topicPartitions. Inl ''broker down'')\<rparr>"
  let ?s4 = "scenarioService\<lparr>HighWaterMarks := (\<lambda>topicPartitions. Inr [])\<rparr>"
  have h1: "ListConsumerGroupOffsetsBulk ?s1 ?groups = Inl ''timeout''"
    by (simp add: scenarioService_def staticService_def)
  have h2: "ListConsumerGroupOffsetsBulk ?s2 ?groups = Inr ?offsets \<and>
      (''g1'', ?topicOffset) \<in> set (offsetsByGroup_loop ?offsets []) \<and>
      ''topicA'' \<in> fst ` set ?topicOffset \<and> Partitions ?s2 ''topicA'' = Inl ''unknown topic''"
    by (simp add: scenarioService_def staticService_def convertOffsets_def)
  have h3: "ListConsumerGroupOffsetsBulk ?s3 ?groups = Inr ?offsets \<and>
      snd (topicPartitions_loop ?s3 (topics_loop (offsetsByGroup_loop ?offsets []) []) [] []) =
        Inr ?tp \<and>
      HighWaterMarks ?s3 ?tp = Inl ''broker down''"
    by (simp add: scenarioService_def staticService_def convertOffsets_def)
  have h4: "getConsumerGroupLags_fetch ?s4 ?groups = Inr (?obg, [])"
    by (simp add: scenarioService_def run_defs)
  have m4: "\<exists>g \<in> set ?groups. \<exists>topic \<in> fst ` set (index_nil ?obg g). map_of [] topic = None"
    by (simp add: index_nil_def)
  have h5: "getConsumerGroupLags_fetch scenarioService ?groups = Inr (?obg, ?wms)"
    by (simp add: scenarioService_def run_defs)
  have m5: "\<forall>g \<in> set ?groups. \<forall>topic \<in> fst ` set (index_nil ?obg g).
              map_of ?wms topic \<noteq> None"
    by (simp add: index_nil_def)
  have c1: "getConsumerGroupLags ?s1 ?groups = Inl FailedListOffsetsBulk"
    by (rule failure_modes [where s = ?s1 and groups = ?groups and err = "''timeout''",
          THEN conjunct1, THEN mp, OF h1])
  have c2: "getConsumerGroupLags ?s2 ?groups = Inl FailedPartitionList"
    by (rule failure_modes [where s = ?s2 and groups = ?groups and err = "''unknown topic''"
          and offsets = ?offsets and g = "''g1''" and topicOffset = ?topicOffset
          and topic = "''topicA''",
          THEN conjunct2, THEN conjunct1, THEN mp, OF h2])
  have c3: "getConsumerGroupLags ?s3 ?groups = Inl (HighWaterMarksError ''broker down'')"
    by (rule failure_modes [where s = ?s3 and groups = ?groups and err = "''broker down''"
          and offsets = ?offsets and topicPartitions = ?tp,
          THEN conjunct2, THEN conjunct2, THEN conjunct1, THEN mp, OF h3])
  have c4: "getConsumerGroupLags ?s4 ?groups = Inl NoPartitionWatermark"
    by (rule failure_modes [where s = ?s4 and groups = ?groups and offsetsByGroup = ?obg
          and waterMarks = "[]",
          THEN conjunct2, THEN conjunct2, THEN conjunct2, THEN mp, OF h4,
          THEN conjunct1, THEN iffD2, OF m4])
  have c5: "\<exists>res. getConsumerGroupLags scenarioService ?groups = Inr res"
    by (rule failure_modes [where s = scenarioService and groups = ?groups
          and offsetsByGroup = ?obg and waterMarks = ?wms,
          THEN conjunct2, THEN conjunct2, THEN conjunct2, THEN mp, OF h5,
          THEN conjunct2, THEN iffD2, OF m5])
  from c1 c2 c3 c4 c5 show ?thesis by (intro conjI)
qed

subsection \<open>C4: the summed lag\<close>

text \<open>
  C4 as stated (\<open>SummedLag\<close> is the sum of the lags of \<open>PartitionLags\<close>) fails when the
  sum leaves the \<open>int64\<close> range, since line 133 adds with wrap-around. With offset \<open>0\<close>
  and watermark \<open>2^63 - 1\<close> for two partitions, both lags are \<open>2^63 - 1\<close>, their sum is
  \<open>2^64 - 2\<close>, and \<open>SummedLag\<close> is \<open>-2\<close>.
\<close>

theorem summedLag_is_sum_counterexample:
  "getConsumerGroupLags
     (staticService
        [(''g'', \<lparr>Blocks = [(''t'', [(0, \<lparr>Offset = 0\<rparr>), (1, \<lparr>Offset = 0\<rparr>)])]\<rparr>)] [0, 1]
        [(''t'', [(0, 0x7FFFFFFFFFFFFFFF), (1, 0x7FFFFFFFFFFFFFFF)])]) [''g''] =
     Inr [(''g'', \<lparr>GroupID = ''g'', TopicLags = Slice [\<lparr>Topic = ''t'', SummedLag = - 2,
             PartitionCount = 2, PartitionsWithOffset = 2,
             PartitionLags = Slice [\<lparr>PartitionID = 0, Lag = 0x7FFFFFFFFFFFFFFF\<rparr>,
                                    \<lparr>PartitionID = 1, Lag = 0x7FFFFFFFFFFFFFFF\<rparr>]\<rparr>]\<rparr>)] \<and>
   sint (- 2 :: int64) = - 2 \<and>
   sint (0x7FFFFFFFFFFFFFFF :: int64) + sint (0x7FFFFFFFFFFFFFFF :: int64) = 18446744073709551614 \<and>
   sint (- 2 :: int64) \<noteq> sint (0x7FFFFFFFFFFFFFFF :: int64) + sint (0x7FFFFFFFFFFFFFFF :: int64)"
  by (simp add: run_defs)

text \<open>
  C4, amended. For every \<open>TopicLag\<close> of a successful run, \<open>SummedLag\<close> is the sum of the
  \<open>Lag\<close> fields of its \<open>PartitionLags\<close> in wrapping \<open>int64\<close> arithmetic, and it is the
  exact sum of the lags whenever that exact sum is below \<open>2^63\<close>.
\<close>

theorem summedLag_is_sum:
  assumes "getConsumerGroupLags s groups = Inr res"
    and "map_of res g = Some cgl"
    and "t \<in> set (elems (TopicLags cgl))"
  shows "SummedLag t = sum_list (map Lag (elems (PartitionLags t))) \<and>
         ((\<Sum>pl\<leftarrow>elems (PartitionLags t). sint (Lag pl)) < 2 ^ 63 \<longrightarrow>
          sint (SummedLag t) = (\<Sum>pl\<leftarrow>elems (PartitionLags t). sint (Lag pl)))"
proof -
  from getConsumerGroupLags_Inr_fetch [OF assms(1)] obtain offsetsByGroup waterMarks where
    fetch: "getConsumerGroupLags_fetch s groups = Inr (offsetsByGroup, waterMarks)" by blast
  from topicLag_origin [OF fetch assms] obtain po where
    t: "t = topicLagOf waterMarks (Topic t) po" by blast
  define ls where "ls = joinLags (index_nil waterMarks (Topic t)) po"
  have pl: "elems (PartitionLags t) = ls" and sl: "SummedLag t = sum_list (map Lag ls)"
    by (subst t, simp add: topicLagOf_def Let_def ls_def)+
  have "sint (sum_list (map Lag ls)) = sum_list (map sint (map Lag ls))"
    if "sum_list (map sint (map Lag ls)) < 2 ^ 63"
    using that
  proof (rule sint_sum_list [rotated])
    fix w assume "w \<in> set (map Lag ls)"
    then obtain p where "p \<in> set ls" "w = Lag p" by auto
    then show "0 \<le> sint w"
      using joinLags_nonneg [of p] by (simp add: ls_def word_sle_eq)
  qed
  then show ?thesis by (simp add: pl sl comp_def)
qed

theorem summedLag_is_sum_witness:
  "getConsumerGroupLags scenarioService [''g1'', ''g2''] =
     Inr [(''g1'', \<lparr>GroupID = ''g1'', TopicLags = Slice [\<lparr>Topic = ''topicA'', SummedLag = 20,
             PartitionCount = 3, PartitionsWithOffset = 2,
             PartitionLags = Slice [\<lparr>PartitionID = 0, Lag = 20\<rparr>, \<lparr>PartitionID = 1, Lag = 0\<rparr>]\<rparr>]\<rparr>),
          (''g2'', \<lparr>GroupID = ''g2'', TopicLags = Slice []\<rparr>)] \<and>
   (20 :: int64) = sum_list (map Lag [\<lparr>PartitionID = 0, Lag = 20\<rparr>, \<lparr>PartitionID = 1, Lag = 0\<rparr>]) \<and>
   sint (20 :: int64) = (\<Sum>pl\<leftarrow>[\<lparr>PartitionID = 0, Lag = 20\<rparr>, \<lparr>PartitionID = 1, Lag = 0 :: int64\<rparr>]. sint (Lag pl))"
proof -
  let ?t = "\<lparr>Topic = ''topicA'', SummedLag = 20, PartitionCount = 3, PartitionsWithOffset = 2,
             PartitionLags = Slice [\<lparr>PartitionID = 0, Lag = 20\<rparr>, \<lparr>PartitionID = 1, Lag = 0\<rparr>]\<rparr>"
  let ?cgl = "\<lparr>GroupID = ''g1'', TopicLags = Slice [?t]\<rparr>"
  let ?res = "[(''g1'', ?cgl), (''g2'', \<lparr>GroupID = ''g2'', TopicLags = Slice []\<rparr>)]"
  have run: "getConsumerGroupLags scenarioService [''g1'', ''g2''] = Inr ?res"
    by (simp add: scenarioService_def run_defs)
  have cgl: "map_of ?res ''g1'' = Some ?cgl" by simp
  have t: "?t \<in> set (elems (TopicLags ?cgl))" by simp
  from summedLag_is_sum [OF run cgl t] run show ?thesis by simp
qed

subsection \<open>C5: no negative lag\<close>

text \<open>
  C5. Every \<open>PartitionLag\<close> of a successful run has a lag that is not negative as a
  signed 64-bit number, whatever the offsets and watermarks are.
\<close>

theorem lag_nonneg:
  assumes "getConsumerGroupLags s groups = Inr res"
    and "map_of res g = Some cgl"
    and "t \<in> set (elems (TopicLags cgl))"
    and "pl \<in> set (elems (PartitionLags t))"
  shows "0 \<le>s Lag pl \<and> 0 \<le> sint (Lag pl)"
proof -
  from getConsumerGroupLags_Inr_fetch [OF assms(1)] obtain offsetsByGroup waterMarks where
    fetch: "getConsumerGroupLags_fetch s groups = Inr (offsetsByGroup, waterMarks)" by blast
  from topicLag_origin [OF fetch assms(1-3)] obtain po where
    t: "t = topicLagOf waterMarks (Topic t) po" by blast
  have "elems (PartitionLags t) = joinLags (index_nil waterMarks (Topic t)) po"
    by (subst t) (simp add: topicLagOf_def Let_def)
  with assms(4) have "0 \<le>s Lag pl" by (simp add: joinLags_nonneg)
  then show ?thesis by (simp add: word_sle_eq)
qed

theorem lag_nonneg_witness:
  "getConsumerGroupLags
     (staticService [(''g'', \<lparr>Blocks = [(''t'', [(0, \<lparr>Offset = 105\<rparr>), (1, \<lparr>Offset = - 7\<rparr>)])]\<rparr>)]
        [0, 1] [(''t'', [(0, 100), (1, - 9)])]) [''g''] =
     Inr [(''g'', \<lparr>GroupID = ''g'', TopicLags = Slice [\<lparr>Topic = ''t'', SummedLag = 0,
             PartitionCount = 2, PartitionsWithOffset = 2,
             PartitionLags = Slice [\<lparr>PartitionID = 0, Lag = 0\<rparr>, \<lparr>PartitionID = 1, Lag = 0\<rparr>]\<rparr>]\<rparr>)] \<and>
   (0 :: int64) \<le>s Lag \<lparr>PartitionID = 0, Lag = 0 :: int64\<rparr> \<and>
   0 \<le> sint (Lag \<lparr>PartitionID = 0, Lag = 0 :: int64\<rparr>)"
proof -
  let ?pl = "\<lparr>PartitionID = 0, Lag = 0 :: int64\<rparr>"
  let ?t = "\<lparr>Topic = ''t'', SummedLag = 0, PartitionCount = 2, PartitionsWithOffset = 2,
             PartitionLags = Slice [?pl, \<lparr>PartitionID = 1, Lag = 0\<rparr>]\<rparr>"
  let ?cgl = "\<lparr>GroupID = ''g'', TopicLags = Slice [?t]\<rparr>"
  let ?res = "[(''g'', ?cgl)]"
  let ?s = "staticService [(''g'', \<lparr>Blocks = [(''t'', [(0, \<lparr>Offset = 105\<rparr>), (1, \<lparr>Offset = - 7\<rparr>)])]\<rparr>)]
        [0, 1] [(''t'', [(0, 100), (1, - 9)])]"
  have run: "getConsumerGroupLags ?s [''g''] = Inr ?res"
    by (simp add: run_defs)
  have cgl: "map_of ?res ''g'' = Some ?cgl" by simp
  have t: "?t \<in> set (elems (TopicLags ?cgl))" by simp
  have pl: "?pl \<in> set (elems (PartitionLags ?t))" by simp
  from lag_nonneg [OF run cgl t pl] run show ?thesis by simp
qed

subsection \<open>C6: partitions with an offset and partition count\<close>

text \<open>
  C6. For every \<open>TopicLag\<close> of a successful run, \<open>PartitionsWithOffset\<close> is at most
  \<open>PartitionCount\<close>, and \<open>PartitionCount\<close> is the number of entries of the topic's
  watermark map, which is the number of partitions with a watermark.
\<close>

theorem partitionsWithOffset_le_partitionCount:
  assumes fetch: "getConsumerGroupLags_fetch s groups = Inr (offsetsByGroup, waterMarks)"
    and res: "getConsumerGroupLags s groups = Inr res"
    and cgl: "map_of res g = Some cgl"
    and t: "t \<in> set (elems (TopicLags cgl))"
  shows "PartitionsWithOffset t \<le> PartitionCount t \<and>
         (\<exists>wm. map_of waterMarks (Topic t) = Some wm \<and>
               PartitionCount t = int (length wm) \<and>
               (distinct (map fst wm) \<longrightarrow> PartitionCount t = int (card (dom (map_of wm)))))"
proof -
  from topicLag_origin [OF fetch res cgl t] obtain po where
    po: "(Topic t, po) \<in> set (index_nil offsetsByGroup g)"
    and teq: "t = topicLagOf waterMarks (Topic t) po" by blast
  from getConsumerGroupLags_success(2) [OF fetch res] cgl have g: "g \<in> set groups"
    by (auto split: if_splits)
  with getConsumerGroupLags_success(1) [OF fetch res]
  have "\<not> missingWatermark offsetsByGroup waterMarks g" by simp
  with po obtain wm where wm: "map_of waterMarks (Topic t) = Some wm"
    by (force simp: missingWatermark_def)
  have cnt: "PartitionCount t = int (length wm)"
    and pwo: "PartitionsWithOffset t = int (length (joinLags wm po))"
    using wm by (subst teq, simp add: topicLagOf_def Let_def index_nil_def)+
  have "PartitionsWithOffset t \<le> PartitionCount t"
    using length_joinLags [of wm po] by (simp add: cnt pwo)
  moreover have "PartitionCount t = int (card (dom (map_of wm)))" if "distinct (map fst wm)"
    using distinct_card [OF that] by (simp add: cnt dom_map_of_conv_image_fst)
  ultimately show ?thesis using wm cnt by simp
qed

theorem partitionsWithOffset_le_partitionCount_witness:
  "getConsumerGroupLags_fetch scenarioService [''g1'', ''g2''] =
     Inr ([(''g1'', [(''topicA'', [(0, 100), (1, 50)])])],
          [(''topicA'', [(0, 120), (1, 50), (2, 30)])]) \<and>
   getConsumerGroupLags scenarioService [''g1'', ''g2''] =
     Inr [(''g1'', \<lparr>GroupID = ''g1'', TopicLags = Slice [\<lparr>Topic = ''topicA'', SummedLag = 20,
             PartitionCount = 3, PartitionsWithOffset = 2,
             PartitionLags = Slice [\<lparr>PartitionID = 0, Lag = 20\<rparr>, \<lparr>PartitionID = 1, Lag = 0\<rparr>]\<rparr>]\<rparr>),
          (''g2'', \<lparr>GroupID = ''g2'', TopicLags = Slice []\<rparr>)] \<and>
   (2 :: int) \<le> 3 \<and>
   (3 :: int) = int (length [(0 :: int32, 120 :: int64), (1, 50), (2, 30)]) \<and>
   (3 :: int) = int (card (dom (map_of [(0 :: int32, 120 :: int64), (1, 50), (2, 30)])))"
proof -
  let ?wm = "[(0 :: int32, 120 :: int64), (1, 50), (2, 30)]"
  let ?t = "\<lparr>Topic = ''topicA'', SummedLag = 20, PartitionCount = 3, PartitionsWithOffset = 2,
             PartitionLags = Slice [\<lparr>PartitionID = 0, Lag = 20\<rparr>, \<lparr>PartitionID = 1, Lag = 0\<rparr>]\<rparr>"
  let ?cgl = "\<lparr>GroupID = ''g1'', TopicLags = Slice [?t]\<rparr>"
  let ?res = "[(''g1'', ?cgl), (''g2'', \<lparr>GroupID = ''g2'', TopicLags = Slice []\<rparr>)]"
  have fetch: "getConsumerGroupLags_fetch scenarioService [''g1'', ''g2''] =
     Inr ([(''g1'', [(''topicA'', [(0, 100), (1, 50)])])], [(''topicA'', ?wm)])"
    by (simp add: scenarioService_def run_defs)
  have run: "getConsumerGroupLags scenarioService [''g1'', ''g2''] = Inr ?res"
    by (simp add: scenarioService_def run_defs)
  have cgl: "map_of ?res ''g1'' = Some ?cgl" by simp
  have t: "?t \<in> set (elems (TopicLags ?cgl))" by simp
  have d: "distinct (map fst ?wm)" by simp
  from partitionsWithOffset_le_partitionCount [OF fetch run cgl t] d fetch run
  show ?thesis by simp
qed

subsection \<open>C7: one entry for every requested group\<close>

text \<open>
  C7. On success every requested group has an entry, and the entry of a group without
  any committed offset carries an empty \<open>topicLags\<close> list that is not nil. The code
  does not meet the second part when the fetched offsets of the group name a topic
  without a single partition: in the run below \<open>g2\<close> has no committed offset anywhere,
  its entry holds a \<open>TopicLag\<close> for \<open>topicA\<close>, and \<open>GetTopicLag\<close> returns that value
  where its comment (nil if the group has no group offsets on that topic) asks for nil.
\<close>

theorem group_without_offsets_has_topicLag:
  "getConsumerGroupLags_fetch
     (staticService [(''g2'', \<lparr>Blocks = [(''topicA'', [])]\<rparr>)] [0] [(''topicA'', [(0, 10)])])
     [''g2''] =
     Inr ([(''g2'', [(''topicA'', [])])], [(''topicA'', [(0, 10)])]) \<and>
   getConsumerGroupLags
     (staticService [(''g2'', \<lparr>Blocks = [(''topicA'', [])]\<rparr>)] [0] [(''topicA'', [(0, 10)])])
     [''g2''] =
     Inr [(''g2'', \<lparr>GroupID = ''g2'', TopicLags = Slice [\<lparr>Topic = ''topicA'', SummedLag = 0,
             PartitionCount = 1, PartitionsWithOffset = 0, PartitionLags = Slice []\<rparr>]\<rparr>)] \<and>
   GetTopicLag
     \<lparr>GroupID = ''g2'', TopicLags = Slice [\<lparr>Topic = ''topicA'', SummedLag = 0,
        PartitionCount = 1, PartitionsWithOffset = 0, PartitionLags = Slice []\<rparr>]\<rparr> ''topicA'' =
     Some \<lparr>Topic = ''topicA'', SummedLag = 0, PartitionCount = 1, PartitionsWithOffset = 0,
            PartitionLags = Slice []\<rparr>"
  by (simp add: run_defs GetTopicLag_def)

subsection \<open>C8: which topics are reported\<close>

text \<open>
  C8. A topic for which a requested group has no committed offset is absent from the
  group's \<open>topicLags\<close>; it is not reported with an empty \<open>partitionLags\<close> list. The code
  does not meet this when the fetched offsets name the topic without a single
  partition: in the run below \<open>g1\<close> has an offset for \<open>topicA\<close> and none for \<open>topicB\<close>,
  the report has a \<open>TopicLag\<close> for \<open>topicB\<close> with an empty \<open>partitionLags\<close> list, and
  \<open>GetTopicLag\<close> returns it where its comment (nil if the group has no group offsets
  on that topic) asks for nil.
\<close>

theorem topic_without_offsets_is_reported:
  "getConsumerGroupLags_fetch
     (staticService
        [(''g1'', \<lparr>Blocks = [(''topicA'', [(0, \<lparr>Offset = 100\<rparr>)]), (''topicB'', [])]\<rparr>)] [0]
        [(''topicA'', [(0, 120)]), (''topicB'', [(0, 30)])]) [''g1''] =
     Inr ([(''g1'', [(''topicA'', [(0, 100)]), (''topicB'', [])])],
          [(''topicA'', [(0, 120)]), (''topicB'', [(0, 30)])]) \<and>
   getConsumerGroupLags
     (staticService
        [(''g1'', \<lparr>Blocks = [(''topicA'', [(0, \<lparr>Offset = 100\<rparr>)]), (''topicB'', [])]\<rparr>)] [0]
        [(''topicA'', [(0, 120)]), (''topicB'', [(0, 30)])]) [''g1''] =
     Inr [(''g1'', \<lparr>GroupID = ''g1'', TopicLags = Slice
            [\<lparr>Topic = ''topicA'', SummedLag = 20, PartitionCount = 1, PartitionsWithOffset = 1,
                PartitionLags = Slice [\<lparr>PartitionID = 0, Lag = 20\<rparr>]\<rparr>,
             \<lparr>Topic = ''topicB'', SummedLag = 0, PartitionCount = 1, PartitionsWithOffset = 0,
                PartitionLags = Slice []\<rparr>]\<rparr>)] \<and>
   GetTopicLag
     \<lparr>GroupID = ''g1'', TopicLags = Slice
        [\<lparr>Topic = ''topicA'', SummedLag = 20, PartitionCount = 1, PartitionsWithOffset = 1,
            PartitionLags = Slice [\<lparr>PartitionID = 0, Lag = 20\<rparr>]\<rparr>,
         \<lparr>Topic = ''topicB'', SummedLag = 0, PartitionCount = 1, PartitionsWithOffset = 0,
            PartitionLags = Slice []\<rparr>]\<rparr> ''topicB'' =
     Some \<lparr>Topic = ''topicB'', SummedLag = 0, PartitionCount = 1, PartitionsWithOffset = 0,
            PartitionLags = Slice []\<rparr>"
  by (simp add: run_defs GetTopicLag_def)

subsection \<open>C9: the topics whose partitions are listed\<close>

text \<open>
  C9 as stated says that \<open>Partitions\<close> is invoked at most once for a topic. The slice
  \<open>topics\<close> is filled by \<open>append\<close> alone, so a topic that two groups consume is in it
  twice and its partitions are listed twice.
\<close>

theorem partitions_calls_counterexample:
  "partitionsCalls
     (staticService
        [(''g1'', \<lparr>Blocks = [(''topicA'', [(0, \<lparr>Offset = 100\<rparr>)])]\<rparr>),
         (''g2'', \<lparr>Blocks = [(''topicA'', [(0, \<lparr>Offset = 90\<rparr>)])]\<rparr>)]
        [0] [(''topicA'', [(0, 120)])])
     [''g1'', ''g2''] = [''topicA'', ''topicA''] \<and>
   \<not> distinct
     (partitionsCalls
        (staticService
           [(''g1'', \<lparr>Blocks = [(''topicA'', [(0, \<lparr>Offset = 100\<rparr>)])]\<rparr>),
            (''g2'', \<lparr>Blocks = [(''topicA'', [(0, \<lparr>Offset = 90\<rparr>)])]\<rparr>)]
           [0] [(''topicA'', [(0, 120)])])
        [''g1'', ''g2''])"
  by (simp add: partitionsCalls_def staticService_def convertOffsets_def)

text \<open>
  C9, amended. When the bulk fetch and the partition listing succeed, \<open>Partitions\<close> is
  invoked for the topic keys of every group's offset map, group after group: a topic
  is listed once for each group of \<open>offsetsByGroup\<close> that has it as a key. Only the map
  \<open>topicPartitions\<close>, which is handed to \<open>HighWaterMarks\<close>, holds every listed topic
  exactly once.
\<close>

theorem partitions_calls:
  assumes bulk: "ListConsumerGroupOffsetsBulk s groups = Inr offsets"
    and tp: "snd (topicPartitions_loop s (topics_loop (offsetsByGroup_loop offsets []) []) [] []) =
               Inr topicPartitions"
  shows "partitionsCalls s groups =
           concat (map (\<lambda>(g, topicOffset). map fst topicOffset) (offsetsByGroup_loop offsets [])) \<and>
         count_list (partitionsCalls s groups) topic =
           length (filter (\<lambda>(g, topicOffset). topic \<in> fst ` set topicOffset)
                     (offsetsByGroup_loop offsets [])) \<and>
         distinct (map fst topicPartitions) \<and>
         fst ` set topicPartitions = set (partitionsCalls s groups)"
proof -
  let ?obg = "offsetsByGroup_loop offsets []"
  let ?topics = "topics_loop ?obg []"
  have ok: "\<forall>topic \<in> set ?topics. \<exists>ps. Partitions s topic = Inr ps"
    by (rule topicPartitions_loop_Inr [OF tp])
  from topicPartitions_loop_ok [OF ok, of "[]" "[]"] obtain tp' where
    run: "topicPartitions_loop s ?topics [] [] = (?topics, Inr tp')"
    and keys: "fst ` set tp' = set ?topics" and dist: "distinct (map fst tp')"
    by auto
  from run tp have eq: "tp' = topicPartitions" by simp
  have calls: "partitionsCalls s groups = ?topics"
    by (simp add: partitionsCalls_def bulk run)
  have topics: "?topics = concat (map (\<lambda>(g, topicOffset). map fst topicOffset) ?obg)"
    by (simp add: topics_loop_eq)
  have inner: "distinct (map fst topicOffset)" if "(g, topicOffset) \<in> set ?obg" for g topicOffset
    using that by (rule offsetsByGroup_loop_inner_distinct [rotated]) simp
  have "count_list ?topics topic =
      length (filter (\<lambda>(g, topicOffset). topic \<in> fst ` set topicOffset) ?obg)"
    unfolding topics by (rule count_list_topics [OF inner])
  with calls topics keys dist eq show ?thesis by simp
qed

theorem partitions_calls_witness:
  "ListConsumerGroupOffsetsBulk
     (staticService
        [(''g1'', \<lparr>Blocks = [(''topicA'', [(0, \<lparr>Offset = 100\<rparr>)])]\<rparr>),
         (''g2'', \<lparr>Blocks = [(''topicA'', [(0, \<lparr>Offset = 90\<rparr>)]), (''topicB'', [(0, \<lparr>Offset = 5\<rparr>)])]\<rparr>)]
        [0] [(''topicA'', [(0, 120)]), (''topicB'', [(0, 7)])])
     [''g1'', ''g2''] =
     Inr [(''g1'', \<lparr>Blocks = [(''topicA'', [(0, \<lparr>Offset = 100\<rparr>)])]\<rparr>),
          (''g2'', \<lparr>Blocks = [(''topicA'', [(0, \<lparr>Offset = 90\<rparr>)]), (''topicB'', [(0, \<lparr>Offset = 5\<rparr>)])]\<rparr>)] \<and>
   partitionsCalls
     (staticService
        [(''g1'', \<lparr>Blocks = [(''topicA'', [(0, \<lparr>Offset = 100\<rparr>)])]\<rparr>),
         (''g2'', \<lparr>Blocks = [(''topicA'', [(0, \<lparr>Offset = 90\<rparr>)]), (''topicB'', [(0, \<lparr>Offset = 5\<rparr>)])]\<rparr>)]
        [0] [(''topicA'', [(0, 120)]), (''topicB'', [(0, 7)])])
     [''g1'', ''g2''] = [''topicA'', ''topicA'', ''topicB''] \<and>
   count_list [''topicA'', ''topicA'', ''topicB''] ''topicA'' = 2 \<and>
   distinct (map fst [(''topicA'', [0 :: int32]), (''topicB'', [0])]) \<and>
   fst ` set [(''topicA'', [0 :: int32]), (''topicB'', [0])] = set [''topicA'', ''topicA'', ''topicB'']"
proof -
  let ?offsets = "[(''g1'', \<lparr>Blocks = [(''topicA'', [(0, \<lparr>Offset = 100\<rparr>)])]\<rparr>),
         (''g2'', \<lparr>Blocks = [(''topicA'', [(0, \<lparr>Offset = 90\<rparr>)]), (''topicB'', [(0, \<lparr>Offset = 5\<rparr>)])]\<rparr>)]"
  let ?s = "staticService ?offsets [0] [(''topicA'', [(0, 120)]), (''topicB'', [(0, 7)])]"
  let ?tp = "[(''topicA'', [0 :: int32]), (''topicB'', [0])]"
  have bulk: "ListConsumerGroupOffsetsBulk ?s [''g1'', ''g2''] = Inr ?offsets"
    by (simp add: staticService_def)
  have tp: "snd (topicPartitions_loop ?s (topics_loop (offsetsByGroup_loop ?offsets []) []) [] []) =
      Inr ?tp"
    by (simp add: staticService_def convertOffsets_def)
  have obg: "offsetsByGroup_loop ?offsets [] =
      [(''g1'', [(''topicA'', [(0, 100)])]), (''g2'', [(''topicA'', [(0, 90)]), (''topicB'', [(0, 5)])])]"
    by (simp add: convertOffsets_def)
  note pc = partitions_calls [OF bulk tp, of "''topicA''", unfolded obg]
  have calls: "partitionsCalls ?s [''g1'', ''g2''] = [''topicA'', ''topicA'', ''topicB'']"
    using pc [THEN conjunct1] by simp
  have cnt: "count_list [''topicA'', ''topicA'', ''topicB''] ''topicA'' = 2"
    using pc [THEN conjunct2, THEN conjunct1] unfolding calls by simp
  have d: "distinct (map fst ?tp)"
    by (rule pc [THEN conjunct2, THEN conjunct2, THEN conjunct1])
  have k: "fst ` set ?tp = set [''topicA'', ''topicA'', ''topicB'']"
    using pc [THEN conjunct2, THEN conjunct2, THEN conjunct2] unfolding calls .
  from bulk calls cnt d k show ?thesis by (intro conjI)
qed

subsection \<open>C10: the offset \<open>-1\<close>\<close>

text \<open>
  C10 as stated (lag \<open>w + 1\<close>, or \<open>0\<close> when \<open>w + 1\<close> is negative, for every watermark
  \<open>w\<close>) fails at the largest watermark, where the subtraction of line 128 wraps
  around: with offset \<open>-1\<close> and watermark \<open>2^63 - 1\<close> the partition is counted and
  reported, \<open>w + 1\<close> is \<open>2^63\<close> and not negative, and the reported lag is \<open>0\<close>.
\<close>

theorem sentinel_offset_is_counted_counterexample:
  "getConsumerGroupLags
     (staticService [(''g1'', \<lparr>Blocks = [(''topicA'', [(3, \<lparr>Offset = - 1\<rparr>)])]\<rparr>)] [3]
        [(''topicA'', [(3, 0x7FFFFFFFFFFFFFFF)])]) [''g1''] =
     Inr [(''g1'', \<lparr>GroupID = ''g1'', TopicLags = Slice [\<lparr>Topic = ''topicA'', SummedLag = 0,
             PartitionCount = 1, PartitionsWithOffset = 1,
             PartitionLags = Slice [\<lparr>PartitionID = 3, Lag = 0\<rparr>]\<rparr>]\<rparr>)] \<and>
   sint (0x7FFFFFFFFFFFFFFF :: int64) + 1 = 9223372036854775808 \<and>
   \<not> sint (0x7FFFFFFFFFFFFFFF :: int64) + 1 < 0 \<and>
   sint (0 :: int64) \<noteq> sint (0x7FFFFFFFFFFFFFFF :: int64) + 1"
  by (simp add: run_defs)

text \<open>
  C10, amended. A fetched block with offset \<open>-1\<close> reaches the offset map of its group
  unchanged, and step 4 treats it like any other offset: for a requested group and a
  partition with watermark \<open>w\<close>, the partition is among those counted by
  \<open>PartitionsWithOffset\<close>, and \<open>PartitionLags\<close> has an entry for it. Its lag is \<open>w + 1\<close>
  in wrapping \<open>int64\<close> arithmetic, or \<open>0\<close> when that is negative as a signed number: for
  every watermark below \<open>2^63 - 1\<close> it is the exact \<open>w + 1\<close>, or \<open>0\<close> when \<open>w + 1\<close> is
  negative.
\<close>

theorem sentinel_offset_is_counted:
  assumes bulk: "ListConsumerGroupOffsetsBulk s groups = Inr offsets"
    and d0: "distinct (map fst offsets)"
    and resp: "map_of offsets g = Some resp"
    and d1: "distinct (map fst (Blocks resp))"
    and blocks: "map_of (Blocks resp) topic = Some blocks"
    and d2: "distinct (map fst blocks)"
    and block: "map_of blocks pID = Some block"
    and sentinel: "Offset block = - 1"
    and fetch: "getConsumerGroupLags_fetch s groups = Inr (offsetsByGroup, waterMarks)"
    and res: "getConsumerGroupLags s groups = Inr res"
    and g: "g \<in> set groups"
    and wms: "map_of waterMarks topic = Some wm"
    and w: "(pID, w) \<in> set wm"
  shows "\<exists>po cgl t lag.
           map_of (index_nil offsetsByGroup g) topic = Some po \<and>
           map_of po pID = Some (- 1) \<and>
           map_of res g = Some cgl \<and>
           filter (\<lambda>t. Topic t = topic) (elems (TopicLags cgl)) = [t] \<and>
           PartitionsWithOffset t =
             int (length (filter (\<lambda>(p, w). map_of po p \<noteq> None) wm)) \<and>
           (pID, w) \<in> set (filter (\<lambda>(p, w). map_of po p \<noteq> None) wm) \<and>
           \<lparr>PartitionID = pID, Lag = lag\<rparr> \<in> set (elems (PartitionLags t)) \<and>
           lag = (if w + 1 <s 0 then 0 else w + 1) \<and>
           (sint w < 2 ^ 63 - 1 \<longrightarrow>
              sint lag = (if sint w + 1 < 0 then 0 else sint w + 1))"
proof -
  let ?po = "convertOffsets_blocks blocks []"
  let ?lag = "if w + 1 <s 0 then 0 else w + 1"
  let ?cgl = "groupLagOf offsetsByGroup waterMarks g"
  let ?t = "topicLagOf waterMarks topic ?po"
  from getConsumerGroupLags_fetch_Inr [OF fetch] bulk
  have obg: "offsetsByGroup = offsetsByGroup_loop offsets []" by auto
  have "map_of offsetsByGroup g = Some (convertOffsets resp)"
    by (simp add: obg offsetsByGroup_loop_lookup [OF d0] resp)
  then have io: "index_nil offsetsByGroup g = convertOffsets resp" by (rule index_nil_Some)
  have po: "map_of (index_nil offsetsByGroup g) topic = Some ?po"
    by (simp add: io convertOffsets_lookup [OF d1] blocks)
  have off: "map_of ?po pID = Some (- 1)"
    by (simp add: convertOffsets_blocks_lookup [OF d2] block sentinel)
  have r: "map_of res g = Some ?cgl" by (rule groupLag_of_requested [OF fetch res g])
  have iw: "index_nil waterMarks topic = wm" using wms by (rule index_nil_Some)
  have "distinct (map fst (index_nil offsetsByGroup g))" by (rule fetch_topics_distinct [OF fetch])
  from filter_topicLags [OF this po]
  have ft: "filter (\<lambda>t. Topic t = topic) (elems (TopicLags ?cgl)) = [?t]"
    by (simp add: groupLagOf_def)
  have cnt: "PartitionsWithOffset ?t =
      int (length (filter (\<lambda>(p, w). map_of ?po p \<noteq> None) wm))"
    by (simp add: topicLagOf_def Let_def iw joinLags_filter)
  have mem: "(pID, w) \<in> set (filter (\<lambda>(p, w). map_of ?po p \<noteq> None) wm)"
    using w off by simp
  have lag: "clampLag w (- 1) = (if w + 1 <s 0 then 0 else w + 1)"
    by (simp add: clampLag_def)
  have "\<lparr>PartitionID = pID, Lag = clampLag w (- 1)\<rparr> \<in> set (joinLags wm ?po)"
    unfolding set_joinLags using w off by blast
  then have pl: "\<lparr>PartitionID = pID, Lag = (if w + 1 <s 0 then 0 else w + 1)\<rparr>
      \<in> set (elems (PartitionLags ?t))"
    unfolding lag by (simp add: topicLagOf_def Let_def iw)
  have exact: "sint ?lag = (if sint w + 1 < 0 then 0 else sint w + 1)" if "sint w < 2 ^ 63 - 1"
  proof -
    have "- (2 ^ 63) \<le> sint w" using sint_ge [of w] by simp
    then have "signed_take_bit 63 (sint w + 1) = sint w + 1"
      using that by (intro signed_take_bit_int_eq_self) simp_all
    then have "sint (w + 1) = sint w + 1" by (simp add: sint_word_ariths)
    then show ?thesis by (simp add: word_sless_alt)
  qed
  from po off r ft cnt mem pl exact show ?thesis by blast
qed

theorem sentinel_offset_is_counted_witness:
  "getConsumerGroupLags_fetch
     (staticService [(''g'', \<lparr>Blocks = [(''t'', [(0, \<lparr>Offset = - 1\<rparr>), (1, \<lparr>Offset = 40\<rparr>)])]\<rparr>)]
        [0, 1, 2] [(''t'', [(0, 120), (1, 50), (2, 30)])]) [''g''] =
     Inr ([(''g'', [(''t'', [(0, - 1), (1, 40)])])], [(''t'', [(0, 120), (1, 50), (2, 30)])]) \<and>
   getConsumerGroupLags
     (staticService [(''g'', \<lparr>Blocks = [(''t'', [(0, \<lparr>Offset = - 1\<rparr>), (1, \<lparr>Offset = 40\<rparr>)])]\<rparr>)]
        [0, 1, 2] [(''t'', [(0, 120), (1, 50), (2, 30)])]) [''g''] =
     Inr [(''g'', \<lparr>GroupID = ''g'', TopicLags = Slice [\<lparr>Topic = ''t'', SummedLag = 131,
             PartitionCount = 3, PartitionsWithOffset = 2,
             PartitionLags = Slice [\<lparr>PartitionID = 0, Lag = 121\<rparr>, \<lparr>PartitionID = 1, Lag = 10\<rparr>]\<rparr>]\<rparr>)] \<and>
   (\<exists>t. filter (\<lambda>t. Topic t = ''t'')
            [\<lparr>Topic = ''t'', SummedLag = 131, PartitionCount = 3, PartitionsWithOffset = 2,
                PartitionLags = Slice [\<lparr>PartitionID = 0, Lag = 121\<rparr>, \<lparr>PartitionID = 1, Lag = 10\<rparr>]\<rparr>] = [t] \<and>
        PartitionsWithOffset t = 2 \<and>
        \<lparr>PartitionID = 0, Lag = (if (120 :: int64) + 1 <s 0 then 0 else 120 + 1)\<rparr>
          \<in> set (elems (PartitionLags t)) \<and>
        sint (if (120 :: int64) + 1 <s 0 then 0 else (120 :: int64) + 1) =
          (if sint (120 :: int64) + 1 < 0 then 0 else sint (120 :: int64) + 1))"
proof -
  let ?blocks = "[(0 :: int32, \<lparr>Offset = - 1\<rparr>), (1, \<lparr>Offset = 40\<rparr>)]"
  let ?resp = "\<lparr>Blocks = [(''t'', ?blocks)]\<rparr>"
  let ?offsets = "[(''g'', ?resp)]"
  let ?wm = "[(0 :: int32, 120 :: int64), (1, 50), (2, 30)]"
  let ?s = "staticService ?offsets [0, 1, 2] [(''t'', ?wm)]"
  let ?poc = "[(0 :: int32, - 1 :: int64), (1, 40)]"
  let ?obg = "[(''g'', [(''t'', ?poc)])]"
  let ?t = "\<lparr>Topic = ''t'', SummedLag = 131, PartitionCount = 3, PartitionsWithOffset = 2,
              PartitionLags = Slice [\<lparr>PartitionID = 0, Lag = 121\<rparr>, \<lparr>PartitionID = 1, Lag = 10\<rparr>]\<rparr>"
  let ?res = "[(''g'', \<lparr>GroupID = ''g'', TopicLags = Slice [?t]\<rparr>)]"
  have bulk: "ListConsumerGroupOffsetsBulk ?s [''g''] = Inr ?offsets" by (simp add: staticService_def)
  have d0: "distinct (map fst ?offsets)" by simp
  have resp: "map_of ?offsets ''g'' = Some ?resp" by simp
  have d1: "distinct (map fst (Blocks ?resp))" by simp
  have blocks: "map_of (Blocks ?resp) ''t'' = Some ?blocks" by simp
  have d2: "distinct (map fst ?blocks)" by simp
  have block: "map_of ?blocks 0 = Some \<lparr>Offset = - 1\<rparr>" by simp
  have sentinel: "Offset \<lparr>Offset = - 1\<rparr> = - 1" by simp
  have fetch: "getConsumerGroupLags_fetch ?s [''g''] = Inr (?obg, [(''t'', ?wm)])"
    by (simp add: run_defs)
  have run: "getConsumerGroupLags ?s [''g''] = Inr ?res" by (simp add: run_defs)
  have g: "''g'' \<in> set [''g'']" by simp
  have wms: "map_of [(''t'', ?wm)] ''t'' = Some ?wm" by simp
  have w: "(0, 120) \<in> set ?wm" by simp
  from sentinel_offset_is_counted [OF bulk d0 resp d1 blocks d2 block sentinel fetch run g wms w]
  obtain po cgl t lag where
    po: "map_of (index_nil ?obg ''g'') ''t'' = Some po"
    and cgl: "map_of ?res ''g'' = Some cgl"
    and ft: "filter (\<lambda>t. Topic t = ''t'') (elems (TopicLags cgl)) = [t]"
    and cnt: "PartitionsWithOffset t = int (length (filter (\<lambda>(p, w). map_of po p \<noteq> None) ?wm))"
    and pl0: "\<lparr>PartitionID = 0, Lag = lag\<rparr> \<in> set (elems (PartitionLags t))"
    and lag: "lag = (if (120 :: int64) + 1 <s 0 then 0 else 120 + 1)"
    and exact0: "sint (120 :: int64) < 2 ^ 63 - 1 \<longrightarrow>
                sint lag = (if sint (120 :: int64) + 1 < 0 then 0 else sint (120 :: int64) + 1)"
    by blast
  have small: "sint (120 :: int64) < 2 ^ 63 - 1" by simp
  from pl0 have pl: "\<lparr>PartitionID = 0, Lag = (if (120 :: int64) + 1 <s 0 then 0 else 120 + 1)\<rparr>
               \<in> set (elems (PartitionLags t))" unfolding lag .
  have exact: "sint (if (120 :: int64) + 1 <s 0 then 0 else (120 :: int64) + 1) =
          (if sint (120 :: int64) + 1 < 0 then 0 else sint (120 :: int64) + 1)"
    by (rule exact0 [unfolded lag, THEN mp, OF small])
  from po have poeq: "po = ?poc" by (simp add: index_nil_def)
  from cgl have cgleq: "cgl = \<lparr>GroupID = ''g'', TopicLags = Slice [?t]\<rparr>" by simp
  from cnt have cnt2: "PartitionsWithOffset t = 2" unfolding poeq by simp
  from ft have ft2: "filter (\<lambda>t. Topic t = ''t'') [?t] = [t]" by (auto simp: cgleq)
  from fetch run ft2 cnt2 pl exact show ?thesis by blast
qed

end
